theory Spec2Isabelle
  imports Complex_Main "HOL-Library.AList"
begin

section \<open>The Nexus exporter (script.py) as a shallow embedding\<close>

text \<open>
  The script mirrors every repository of a Nexus server to disk. Its effects are made
  explicit here: the exporter's \<open>stats\<close> dictionary, the file system, the list of
  GET requests issued, the log file and the console are fields of one \<open>world\<close> record
  that every operation takes and returns. Everything the program cannot decide itself
  (what the server answers, which directory cannot be created, what the clock shows, in
  which order the event loop resumes download tasks, at what pace the bytes of a body
  arrive) is read from an \<open>env\<close> record of
  oracles, so that a statement about every \<open>env\<close> is a statement about every run.

  What the model takes for granted:
  \<^item> the JSON objects of the server are records holding the keys the code reads
    (\<open>name\<close>, \<open>items\<close>, \<open>assets\<close>, \<open>downloadUrl\<close>, \<open>path\<close> are present; \<open>fileSize\<close>
    and \<open>continuationToken\<close> are optional), as in the data model of the specification;
  \<^item> paths are POSIX paths, and the file system holds regular files only;
  \<^item> a write to a file that has been opened succeeds;
  \<^item> the session is open (\<open>create_session\<close> has run), and no task is cancelled.

  An exception raised inside a \<open>try\<close> is a value \<open>Inl e\<close> of the body's result, and
  each handler is the function that receives it. A loop that may not end returns an
  option, \<open>None\<close> being the run that never leaves it.
\<close>

subsection \<open>Configuration constants (lines 19-23)\<close>

definition BASE_OUTPUT_DIR :: string where
  "BASE_OUTPUT_DIR = ''nexus_artifacts''"

definition MAX_CONCURRENT_DOWNLOADS :: nat where
  "MAX_CONCURRENT_DOWNLOADS = 10"

subsection \<open>Data model\<close>

type_synonym bytes = "char list"

record asset =
  downloadUrl :: string
  path :: string
  fileSize :: "int option"

record component =
  assets :: "asset list"

record page =
  items :: "component list"
  continuationToken :: "string option"

record repository =
  name :: string

text \<open>
  One entry of \<open>self.stats\<close> (lines 84-88). The dictionary itself is an association
  list in insertion order, read with \<open>map_of\<close> and written with \<open>AList.update\<close>, which
  replaces the value of a key in place and appends a new key at the end, as a Python
  dict does.
\<close>

record repo_stats =
  downloaded_assets :: int
  downloaded_size :: int
  start_time :: real

text \<open>
  Exceptions. \<open>FailedToGetRepositories st\<close> is the
  \<^verbatim>\<open>Exception(f"Failed to get repositories: Status {response.status}")\<close> of line 48;
  \<open>LibError msg\<close> is an exception raised by aiohttp, the json decoder or os, with
  \<open>str(e) = msg\<close>; \<open>KeyError k\<close> is a failed dictionary lookup.
\<close>

datatype exn =
    FailedToGetRepositories int
  | LibError string
  | KeyError string

text \<open>
  The GET requests of the program: the repository listing (line 42), a component page
  with its query parameters (lines 60-63), an asset download by URL (line 98).
\<close>

datatype request =
    GetRepositories
  | GetComponents "(string \<times> string) list"
  | GetAsset string

text \<open>
  What a JSON endpoint answers: the request itself raises (\<open>ConnError\<close>), or a
  response arrives with its status, its body as text, and the result of
  \<open>response.json()\<close> (\<open>Inl msg\<close> when decoding raises).
\<close>

datatype 'a http_reply =
    ConnError string
  | Reply int string "string + 'a"

text \<open>
  What a download answers: the request raises, or a response arrives with its status,
  the bytes of the body that reach the client, and the exception (if any) that the body
  stream raises after delivering them.
\<close>

datatype dl_reply =
    DlConnError string
  | DlReply int bytes "string option"

text \<open>One constructor per logging call of the script, holding the values it formats.\<close>

datatype log_entry =
    Err_FailedGetRepositories int string
  | Err_GettingRepositories exn
  | Err_FailedGetComponents int string
  | Err_GettingComponents exn
  | Info_Downloaded string string
  | Err_FailedDownload string string int
  | Err_Downloading string string exn
  | Info_Processing string
  | Err_ProcessingRepository string exn
  | Err_ExportAll exn
  | Info_ExportCompleted real

fun is_error :: "log_entry \<Rightarrow> bool" where
  "is_error (Info_Downloaded r p) = False"
| "is_error (Info_Processing r) = False"
| "is_error (Info_ExportCompleted d) = False"
| "is_error e = True"

text \<open>One constructor per print call of the script, holding the values it formats.\<close>

datatype out_line =
    Out_Skipping string string
  | Out_Downloaded string int string
  | Out_Processing string
  | Out_RepoCompleted string
  | Out_FilesDownloaded int
  | Out_TotalSize real
  | Out_AverageSpeed real
  | Out_NoRepositories
  | Out_ErrorOccurred exn
  | Out_Starting
  | Out_BaseDir
  | Out_OverallSummary
  | Out_TotalRepositories nat
  | Out_TotalFiles int
  | Out_TotalSizeDownloaded real
  | Out_TotalTime real
  | Out_OverallSpeed real

record world =
  stats :: "(string \<times> repo_stats) list"
  files :: "string \<Rightarrow> bytes option"
  requests :: "request list"
  logs :: "log_entry list"
  console :: "out_line list"
  clock_reads :: nat
  gathers :: nat

text \<open>
  The oracles. A server's answer may depend on every request made before (\<open>requests\<close>
  of the world at that moment), so any sequence of answers is some \<open>env\<close>. The \<open>n\<close>-th
  call of \<open>time.time()\<close> returns \<open>clock env n\<close>; the \<open>n\<close>-th \<open>asyncio.gather\<close>
  resumes its tasks in the order \<open>interleaving env n\<close>. Only regular files are tracked
  by \<open>files\<close>; \<open>os.makedirs\<close> and \<open>open\<close> raise where the fault oracles say so.
  The body of a download reaches the client piece by piece, at the pace of the network:
  \<open>buffered env h u\<close> lists how many bytes of the body of \<open>u\<close> lie in the reader's
  buffer at its first, second, ... read, when the response arrives after the requests
  \<open>h\<close>; beyond the end of the list, all the rest of the body has arrived.
\<close>

record env =
  repositories_reply :: "request list \<Rightarrow> repository list http_reply"
  components_reply :: "request list \<Rightarrow> (string \<times> string) list \<Rightarrow> page http_reply"
  asset_reply :: "request list \<Rightarrow> string \<Rightarrow> dl_reply"
  makedirs_fault :: "string \<Rightarrow> string option"
  open_fault :: "string \<Rightarrow> string option"
  clock :: "nat \<Rightarrow> real"
  interleaving :: "nat \<Rightarrow> nat list"
  buffered :: "request list \<Rightarrow> string \<Rightarrow> nat list"

subsection \<open>Library calls\<close>

text \<open>\<open>posixpath.join\<close>: an absolute component discards what precedes it.\<close>

definition join_step :: "string \<Rightarrow> string \<Rightarrow> string" where
  "join_step p b =
     (if take 1 b = ''/'' then b
      else if p = [] \<or> last p = CHR ''/'' then p @ b
      else p @ ''/'' @ b)"

definition os_path_join :: "string \<Rightarrow> string list \<Rightarrow> string" where
  "os_path_join a ps = foldl join_step a ps"

text \<open>
  \<open>posixpath.dirname\<close>: the part up to the last slash, without its trailing slashes
  unless it consists of slashes only.
\<close>

definition os_path_dirname :: "string \<Rightarrow> string" where
  "os_path_dirname p =
     (let head = rev (dropWhile (\<lambda>c. c \<noteq> CHR ''/'') (rev p))
      in if head \<noteq> [] \<and> \<not> list_all (\<lambda>c. c = CHR ''/'') head
         then rev (dropWhile (\<lambda>c. c = CHR ''/'') (rev head))
         else head)"

definition os_path_exists :: "world \<Rightarrow> string \<Rightarrow> bool" where
  "os_path_exists w p = (files w p \<noteq> None)"

definition os_path_getsize :: "world \<Rightarrow> string \<Rightarrow> int" where
  "os_path_getsize w p = (case files w p of Some b \<Rightarrow> int (length b) | None \<Rightarrow> 0)"

definition time_time :: "env \<Rightarrow> world \<Rightarrow> real \<times> world" where
  "time_time env w = (clock env (clock_reads w), w\<lparr>clock_reads := Suc (clock_reads w)\<rparr>)"

definition logging :: "log_entry \<Rightarrow> world \<Rightarrow> world" where
  "logging e w = w\<lparr>logs := logs w @ [e]\<rparr>"

definition print :: "out_line \<Rightarrow> world \<Rightarrow> world" where
  "print l w = w\<lparr>console := console w @ [l]\<rparr>"

definition session_get :: "request \<Rightarrow> world \<Rightarrow> world" where
  "session_get r w = w\<lparr>requests := requests w @ [r]\<rparr>"

text \<open>
  \<open>response.content.iter_chunked(n)\<close> yields the results of successive \<open>read(n)\<close>
  until the body has ended. A \<open>read(n)\<close> returns what lies in the buffer, at most
  \<open>n\<close> bytes of it; on an empty buffer it waits, so it returns at least one byte
  unless the body has ended. The chunks are therefore not of a fixed size: \<open>av\<close>
  lists how much is buffered at each read, and once the list is exhausted the whole rest
  of the body \<open>b\<close> is buffered, so that the remaining chunks have \<open>n\<close> bytes, the last
  one holding what is left.
\<close>

function iter_chunked :: "nat \<Rightarrow> nat list \<Rightarrow> bytes \<Rightarrow> bytes list" where
  "iter_chunked n [] b =
     (if b = [] \<or> n = 0 then [] else take n b # iter_chunked n [] (drop n b))"
| "iter_chunked n (k # ks) b =
     (if b = [] \<or> n = 0 then []
      else take (min n (max 1 k)) b # iter_chunked n ks (drop (min n (max 1 k)) b))"
  by pat_completeness auto
termination
  by (relation "measure (\<lambda>(n, av, b). length b)") auto

declare iter_chunked.simps [simp del]

text \<open>Python truthiness of an optional string: \<open>None\<close> and the empty string are falsy.\<close>

definition truthy :: "string option \<Rightarrow> bool" where
  "truthy t = (case t of None \<Rightarrow> False | Some s \<Rightarrow> s \<noteq> [])"

subsection \<open>get_repositories (lines 39-51)\<close>

text \<open>
  The body of the \<open>try\<close>: returns the parsed listing on status 200; otherwise logs
  status and body (line 47) and raises an exception built from the status (line 48).
\<close>

definition get_repositories_try :: "env \<Rightarrow> world \<Rightarrow> (exn + repository list) \<times> world" where
  "get_repositories_try env w =
     (let w1 = session_get GetRepositories w in
      case repositories_reply env (requests w) of
        ConnError msg \<Rightarrow> (Inl (LibError msg), w1)
      | Reply st txt js \<Rightarrow>
          if st = 200 then
            (case js of Inr v \<Rightarrow> (Inr v, w1) | Inl msg \<Rightarrow> (Inl (LibError msg), w1))
          else (Inl (FailedToGetRepositories st),
                logging (Err_FailedGetRepositories st txt) w1))"

text \<open>The handler of lines 49-51 logs the exception and raises it again.\<close>

definition get_repositories :: "env \<Rightarrow> world \<Rightarrow> (exn + repository list) \<times> world" where
  "get_repositories env w =
     (case get_repositories_try env w of
        (Inr v, w1) \<Rightarrow> (Inr v, w1)
      | (Inl e, w1) \<Rightarrow> (Inl e, logging (Err_GettingRepositories e) w1))"

subsection \<open>get_components (lines 53-72)\<close>

definition empty_page :: page where
  "empty_page = \<lparr>items = [], continuationToken = None\<rparr>"

text \<open>Lines 56-58: the token is sent only when it is truthy.\<close>

definition comp_params :: "string \<Rightarrow> string option \<Rightarrow> (string \<times> string) list" where
  "comp_params repository_name continuation_token =
     [(''repository'', repository_name)] @
     (case continuation_token of
        None \<Rightarrow> []
      | Some t \<Rightarrow> if t = [] then [] else [(''continuationToken'', t)])"

definition get_components_try ::
  "env \<Rightarrow> string \<Rightarrow> string option \<Rightarrow> world \<Rightarrow> (exn + page) \<times> world" where
  "get_components_try env repository_name continuation_token w =
     (let params = comp_params repository_name continuation_token;
          w1 = session_get (GetComponents params) w in
      case components_reply env (requests w) params of
        ConnError msg \<Rightarrow> (Inl (LibError msg), w1)
      | Reply st txt js \<Rightarrow>
          if st = 200 then
            (case js of Inr v \<Rightarrow> (Inr v, w1) | Inl msg \<Rightarrow> (Inl (LibError msg), w1))
          else (Inr empty_page, logging (Err_FailedGetComponents st txt) w1))"

text \<open>The handler of lines 70-72 logs the exception and returns the empty page.\<close>

definition get_components ::
  "env \<Rightarrow> string \<Rightarrow> string option \<Rightarrow> world \<Rightarrow> page \<times> world" where
  "get_components env repository_name continuation_token w =
     (case get_components_try env repository_name continuation_token w of
        (Inr result, w1) \<Rightarrow> (result, w1)
      | (Inl e, w1) \<Rightarrow> (empty_page, logging (Err_GettingComponents e) w1))"

subsection \<open>download_asset (lines 74-111)\<close>

text \<open>
  A download coroutine is suspended at its \<open>await\<close>s: in \<open>session.get\<close> until the
  response arrives, and in the chunk iterator until the next chunk (or the end of the
  body) arrives. The code between two suspensions runs without interruption, so a task
  is in one of four states, and \<open>step_task\<close> runs it from one suspension to the next.
\<close>

datatype task =
    NotStarted asset
  | AwaitingResponse asset dl_reply
  | Streaming asset "bytes list" "string option"
  | Finished

definition full_path_of :: "string \<Rightarrow> asset \<Rightarrow> string" where
  "full_path_of repository_name a = os_path_join BASE_OUTPUT_DIR [repository_name, path a]"

text \<open>Lines 83-88.\<close>

definition init_stats :: "env \<Rightarrow> string \<Rightarrow> world \<Rightarrow> world" where
  "init_stats env repository_name w =
     (if map_of (stats w) repository_name = None then
        (case time_time env w of
           (t, w1) \<Rightarrow>
             w1\<lparr>stats := AList.update repository_name
                   \<lparr>downloaded_assets = 0, downloaded_size = 0, start_time = t\<rparr> (stats w1)\<rparr>)
      else w)"

text \<open>The handler of lines 110-111: log the exception, return normally.\<close>

definition download_failed :: "string \<Rightarrow> asset \<Rightarrow> exn \<Rightarrow> world \<Rightarrow> world" where
  "download_failed repository_name a e w =
     logging (Err_Downloading repository_name (path a) e) w"

text \<open>Lines 77-98, up to the suspension in \<open>session.get\<close>.\<close>

definition begin_download :: "env \<Rightarrow> string \<Rightarrow> asset \<Rightarrow> world \<Rightarrow> task \<times> world" where
  "begin_download env repository_name a w =
     (let full_path = full_path_of repository_name a;
          w1 = init_stats env repository_name w in
      if os_path_exists w1 full_path \<and>
         (case fileSize a of None \<Rightarrow> False | Some n \<Rightarrow> os_path_getsize w1 full_path = n)
      then (Finished, print (Out_Skipping repository_name (path a)) w1)
      else
        (case makedirs_fault env (os_path_dirname full_path) of
           Some msg \<Rightarrow> (Finished, download_failed repository_name a (LibError msg) w1)
         | None \<Rightarrow>
             (AwaitingResponse a (asset_reply env (requests w1) (downloadUrl a)),
              session_get (GetAsset (downloadUrl a)) w1)))"

text \<open>Lines 98-100 and 108-109: the response arrives; on status 200 the file is opened
  for writing, which truncates it.\<close>

definition on_response :: "env \<Rightarrow> string \<Rightarrow> asset \<Rightarrow> dl_reply \<Rightarrow> world \<Rightarrow> task \<times> world" where
  "on_response env repository_name a r w =
     (case r of
        DlConnError msg \<Rightarrow> (Finished, download_failed repository_name a (LibError msg) w)
      | DlReply st body flt \<Rightarrow>
          if st = 200 then
            (case open_fault env (full_path_of repository_name a) of
               Some msg \<Rightarrow> (Finished, download_failed repository_name a (LibError msg) w)
             | None \<Rightarrow>
                 (Streaming a (iter_chunked 8192 (buffered env (requests w) (downloadUrl a)) body) flt,
                  w\<lparr>files := (files w)(full_path_of repository_name a \<mapsto> [])\<rparr>))
          else (Finished, logging (Err_FailedDownload repository_name (path a) st) w))"

definition file_write :: "string \<Rightarrow> bytes \<Rightarrow> world \<Rightarrow> world" where
  "file_write p c w =
     w\<lparr>files := (files w)(p \<mapsto> (case files w p of Some old \<Rightarrow> old | None \<Rightarrow> []) @ c)\<rparr>"

text \<open>Lines 102-103: one chunk is written and counted.\<close>

definition on_chunk ::
  "string \<Rightarrow> asset \<Rightarrow> bytes \<Rightarrow> bytes list \<Rightarrow> string option \<Rightarrow> world \<Rightarrow> task \<times> world" where
  "on_chunk repository_name a c cs flt w =
     (let w1 = file_write (full_path_of repository_name a) c w in
      case map_of (stats w1) repository_name of
        None \<Rightarrow> (Finished, download_failed repository_name a (KeyError repository_name) w1)
      | Some s \<Rightarrow>
          (Streaming a cs flt,
           w1\<lparr>stats := AList.update repository_name
                 (s\<lparr>downloaded_size := downloaded_size s + int (length c)\<rparr>) (stats w1)\<rparr>))"

text \<open>The body ends: the stream raised (handler), or lines 105-107 run.\<close>

definition on_eof :: "string \<Rightarrow> asset \<Rightarrow> string option \<Rightarrow> world \<Rightarrow> task \<times> world" where
  "on_eof repository_name a flt w =
     (case flt of
        Some msg \<Rightarrow> (Finished, download_failed repository_name a (LibError msg) w)
      | None \<Rightarrow>
          (case map_of (stats w) repository_name of
             None \<Rightarrow> (Finished, download_failed repository_name a (KeyError repository_name) w)
           | Some s \<Rightarrow>
               (Finished,
                logging (Info_Downloaded repository_name (path a))
                  (print (Out_Downloaded repository_name (downloaded_assets s + 1) (path a))
                     (w\<lparr>stats := AList.update repository_name
                           (s\<lparr>downloaded_assets := downloaded_assets s + 1\<rparr>) (stats w)\<rparr>)))))"

definition step_task :: "env \<Rightarrow> string \<Rightarrow> task \<Rightarrow> world \<Rightarrow> task \<times> world" where
  "step_task env repository_name t w =
     (case t of
        NotStarted a \<Rightarrow> begin_download env repository_name a w
      | AwaitingResponse a r \<Rightarrow> on_response env repository_name a r w
      | Streaming a [] flt \<Rightarrow> on_eof repository_name a flt w
      | Streaming a (c # cs) flt \<Rightarrow> on_chunk repository_name a c cs flt w
      | Finished \<Rightarrow> (Finished, w))"

text \<open>A task resumed until it has finished: first its remaining chunks, ...\<close>

fun run_stream :: "string \<Rightarrow> asset \<Rightarrow> bytes list \<Rightarrow> string option \<Rightarrow> world \<Rightarrow> world" where
  "run_stream repository_name a [] flt w = snd (on_eof repository_name a flt w)"
| "run_stream repository_name a (c # cs) flt w =
     (case on_chunk repository_name a c cs flt w of
        (Streaming a' cs' flt', w1) \<Rightarrow> run_stream repository_name a cs flt w1
      | (t, w1) \<Rightarrow> w1)"

text \<open>... then from any state.\<close>

definition finish_streaming :: "string \<Rightarrow> task \<times> world \<Rightarrow> world" where
  "finish_streaming repository_name tw =
     (case tw of
        (Streaming a cs flt, w) \<Rightarrow> run_stream repository_name a cs flt w
      | (t, w) \<Rightarrow> w)"

definition finish_task :: "env \<Rightarrow> string \<Rightarrow> task \<Rightarrow> world \<Rightarrow> world" where
  "finish_task env repository_name t w =
     (case t of
        NotStarted a \<Rightarrow>
          (case begin_download env repository_name a w of
             (AwaitingResponse a' r, w1) \<Rightarrow>
               finish_streaming repository_name (on_response env repository_name a' r w1)
           | (t1, w1) \<Rightarrow> finish_streaming repository_name (t1, w1))
      | AwaitingResponse a r \<Rightarrow>
          finish_streaming repository_name (on_response env repository_name a r w)
      | t' \<Rightarrow> finish_streaming repository_name (t', w))"

text \<open>\<open>await self.download_asset(asset, repository_name)\<close>: the coroutine run alone.\<close>

definition download_asset :: "env \<Rightarrow> asset \<Rightarrow> string \<Rightarrow> world \<Rightarrow> world" where
  "download_asset env a repository_name w = finish_task env repository_name (NotStarted a) w"

subsection \<open>asyncio.gather over the tasks of one page (lines 127-133)\<close>

text \<open>
  \<open>gather\<close> schedules every coroutine it is given: each runs in list order up to its
  first suspension before any response is handled (\<open>start_all\<close>). Then the event loop
  resumes whichever task has input; the order is the oracle's (\<open>run_sched\<close>, a list of
  task indices), and \<open>gather\<close> returns when all tasks have finished (\<open>finish_all\<close>
  completes the ones the schedule left unfinished, in list order). Nothing limits how
  many tasks are started: the executor created in \<open>__init__\<close> (line 29) with
  \<open>MAX_CONCURRENT_DOWNLOADS\<close> workers is used by no method.
\<close>

fun start_all :: "env \<Rightarrow> string \<Rightarrow> task list \<Rightarrow> world \<Rightarrow> task list \<times> world" where
  "start_all env repository_name [] w = ([], w)"
| "start_all env repository_name (t # ts) w =
     (case step_task env repository_name t w of
        (t', w1) \<Rightarrow>
          (case start_all env repository_name ts w1 of
             (ts', w2) \<Rightarrow> (t' # ts', w2)))"

definition step_nth :: "env \<Rightarrow> string \<Rightarrow> nat \<Rightarrow> task list \<times> world \<Rightarrow> task list \<times> world" where
  "step_nth env repository_name i tw =
     (case tw of
        (ts, w) \<Rightarrow>
          if i < length ts then
            (case step_task env repository_name (ts ! i) w of
               (t', w1) \<Rightarrow> (ts[i := t'], w1))
          else (ts, w))"

fun run_sched :: "env \<Rightarrow> string \<Rightarrow> nat list \<Rightarrow> task list \<times> world \<Rightarrow> task list \<times> world" where
  "run_sched env repository_name [] tw = tw"
| "run_sched env repository_name (i # sched) tw =
     run_sched env repository_name sched (step_nth env repository_name i tw)"

fun finish_all :: "env \<Rightarrow> string \<Rightarrow> task list \<Rightarrow> world \<Rightarrow> world" where
  "finish_all env repository_name [] w = w"
| "finish_all env repository_name (t # ts) w =
     finish_all env repository_name ts (finish_task env repository_name t w)"

definition gather :: "env \<Rightarrow> string \<Rightarrow> nat list \<Rightarrow> task list \<Rightarrow> world \<Rightarrow> world" where
  "gather env repository_name sched coros w =
     (case run_sched env repository_name sched (start_all env repository_name coros w) of
        (ts, w1) \<Rightarrow> finish_all env repository_name ts w1)"

text \<open>A transfer is in flight from the moment its GET is issued until its task ends.\<close>

fun active :: "task \<Rightarrow> bool" where
  "active (AwaitingResponse a r) = True"
| "active (Streaming a cs flt) = True"
| "active t = False"

definition in_flight :: "task list \<Rightarrow> nat" where
  "in_flight ts = length (filter active ts)"

subsection \<open>process_repository (lines 113-150)\<close>

text \<open>Lines 127-130: one coroutine per asset of every item of the page.\<close>

definition download_tasks :: "page \<Rightarrow> task list" where
  "download_tasks result = concat (map (\<lambda>item. map NotStarted (assets item)) (items result))"

text \<open>Lines 127-133: the tasks of one page are gathered, unless there are none.\<close>

definition download_page :: "env \<Rightarrow> string \<Rightarrow> page \<Rightarrow> world \<Rightarrow> world" where
  "download_page env repository_name result w =
     (if download_tasks result \<noteq> []
      then gather env repository_name (interleaving env (gathers w))
             (download_tasks result) (w\<lparr>gathers := Suc (gathers w)\<rparr>)
      else w)"

text \<open>
  Lines 124-137. The loop ends when the page's token is falsy; it need not end at all,
  so the result is an option and \<open>None\<close> is the run that never leaves the loop.
\<close>

partial_function (option) pages_loop ::
  "env \<Rightarrow> string \<Rightarrow> string option \<Rightarrow> world \<Rightarrow> world option" where
  "pages_loop env repository_name continuation_token w =
     (case get_components env repository_name continuation_token w of
        (result, w1) \<Rightarrow>
          (case download_page env repository_name result w1 of
             w2 \<Rightarrow>
               if truthy (continuationToken result)
               then pages_loop env repository_name (continuationToken result) w2
               else Some w2))"

text \<open>Lines 140-147: the summary, printed only for a repository that has statistics.\<close>

definition repo_summary :: "env \<Rightarrow> string \<Rightarrow> world \<Rightarrow> world" where
  "repo_summary env repository_name w =
     (case map_of (stats w) repository_name of
        None \<Rightarrow> w
      | Some s \<Rightarrow>
          (case time_time env w of
             (t, w1) \<Rightarrow>
               (let duration = t - start_time s;
                    size_mb = real_of_int (downloaded_size s) / (1024 * 1024);
                    speed = (if duration > 0 then size_mb / duration else 0)
                in print (Out_AverageSpeed speed)
                     (print (Out_TotalSize size_mb)
                        (print (Out_FilesDownloaded (downloaded_assets s))
                           (print (Out_RepoCompleted repository_name) w1))))))"

definition process_repository :: "env \<Rightarrow> repository \<Rightarrow> world \<Rightarrow> world option" where
  "process_repository env repo w =
     (let repository_name = name repo;
          w1 = logging (Info_Processing repository_name)
                 (print (Out_Processing repository_name) w) in
      case makedirs_fault env (os_path_join BASE_OUTPUT_DIR [repository_name]) of
        Some msg \<Rightarrow>
          Some (logging (Err_ProcessingRepository repository_name (LibError msg)) w1)
      | None \<Rightarrow>
          (case pages_loop env repository_name None w1 of
             None \<Rightarrow> None
           | Some w2 \<Rightarrow> Some (repo_summary env repository_name w2)))"

subsection \<open>export_all (lines 152-173) and main (lines 175-197)\<close>

fun process_all :: "env \<Rightarrow> repository list \<Rightarrow> world \<Rightarrow> world option" where
  "process_all env [] w = Some w"
| "process_all env (repo # repositories) w =
     (case process_repository env repo w of
        None \<Rightarrow> None
      | Some w1 \<Rightarrow> process_all env repositories w1)"

text \<open>
  The result is \<open>None\<close> when some pagination never ends, \<open>Some (Inl e, w)\<close> when
  \<open>e\<close> leaves \<open>export_all\<close> (only \<open>os.makedirs\<close> of line 156 stands outside the inner
  \<open>try\<close>), and \<open>Some (Inr (), w)\<close> when it returns.
\<close>

definition export_all :: "env \<Rightarrow> world \<Rightarrow> ((exn + unit) \<times> world) option" where
  "export_all env w =
     (case makedirs_fault env BASE_OUTPUT_DIR of
        Some msg \<Rightarrow> Some (Inl (LibError msg), w)
      | None \<Rightarrow>
          (case get_repositories env w of
             (Inl e, w1) \<Rightarrow> Some (Inr (), print (Out_ErrorOccurred e) (logging (Err_ExportAll e) w1))
           | (Inr repositories, w1) \<Rightarrow>
               if repositories = [] then Some (Inr (), print Out_NoRepositories w1)
               else (case process_all env repositories w1 of
                       None \<Rightarrow> None
                     | Some w2 \<Rightarrow> Some (Inr (), w2))))"

text \<open>Lines 187-197: the overall summary, computed from \<open>exporter.stats\<close>.\<close>

definition overall_summary :: "real \<Rightarrow> world \<Rightarrow> world" where
  "overall_summary duration w =
     (let total_files = sum_list (map (\<lambda>kv. downloaded_assets (snd kv)) (stats w));
          total_size = sum_list (map (\<lambda>kv. downloaded_size (snd kv)) (stats w));
          w1 = print (Out_TotalTime duration)
                 (print (Out_TotalSizeDownloaded (real_of_int total_size / (1024 * 1024)))
                    (print (Out_TotalFiles total_files)
                       (print (Out_TotalRepositories (length (stats w)))
                          (print Out_OverallSummary w))));
          w2 = (if duration > 0
                then print (Out_OverallSpeed ((real_of_int total_size / duration) / (1024 * 1024))) w1
                else w1)
      in logging (Info_ExportCompleted duration) w2)"

text \<open>\<open>NexusExporter()\<close> starts with empty statistics; the disk is as the run finds it.\<close>

definition init_world :: "(string \<Rightarrow> bytes option) \<Rightarrow> world" where
  "init_world disk =
     \<lparr>stats = [], files = disk, requests = [], logs = [], console = [],
      clock_reads = 0, gathers = 0\<rparr>"

definition main :: "env \<Rightarrow> (string \<Rightarrow> bytes option) \<Rightarrow> ((exn + unit) \<times> world) option" where
  "main env disk =
     (case time_time env (init_world disk) of
        (start, w0) \<Rightarrow>
          (case export_all env (print Out_BaseDir (print Out_Starting w0)) of
             None \<Rightarrow> None
           | Some (Inl e, w1) \<Rightarrow> Some (Inl e, w1)
           | Some (Inr u, w1) \<Rightarrow>
               (case time_time env w1 of
                  (end_time, w2) \<Rightarrow> Some (Inr (), overall_summary (end_time - start) w2))))"

section \<open>Observations and invariants\<close>

text \<open>
  The definitions of this section are not code of the script: they are what the
  statements below observe of a world (a repository's counters, the page requests
  made), the hypotheses they make about the server, and the invariants their proofs
  carry through the steps of the tasks.
\<close>

text \<open>The requests for component pages among the requests made, in order.\<close>

fun is_page_request :: "request \<Rightarrow> bool" where
  "is_page_request (GetComponents q) = True"
| "is_page_request r = False"

definition page_requests :: "request list \<Rightarrow> request list" where
  "page_requests h = filter is_page_request h"

text \<open>
  \<open>stats_grow s s'\<close>: every entry of \<open>s\<close> is still an entry of \<open>s'\<close>, with
  counters that are not smaller and the same \<open>start_time\<close>.
\<close>

definition stats_grow :: "(string \<times> repo_stats) list \<Rightarrow> (string \<times> repo_stats) list \<Rightarrow> bool" where
  "stats_grow s s' =
     (\<forall>r st. map_of s r = Some st \<longrightarrow>
        (\<exists>st'. map_of s' r = Some st' \<and>
           downloaded_assets st \<le> downloaded_assets st' \<and>
           downloaded_size st \<le> downloaded_size st' \<and>
           start_time st' = start_time st))"

text \<open>
  The counters of a repository as the specification names them; a repository without
  an entry in \<open>stats\<close> has downloaded nothing.
\<close>

definition downloadedAssets :: "world \<Rightarrow> string \<Rightarrow> int" where
  "downloadedAssets w r = (case map_of (stats w) r of Some s \<Rightarrow> downloaded_assets s | None \<Rightarrow> 0)"

definition downloadedBytes :: "world \<Rightarrow> string \<Rightarrow> int" where
  "downloadedBytes w r = (case map_of (stats w) r of Some s \<Rightarrow> downloaded_size s | None \<Rightarrow> 0)"

text \<open>
  What the steps of the download tasks of repository \<open>rn\<close> may do to the world:
  entries of \<open>stats\<close> only grow, entries of other repositories stay, keys stay
  distinct, no page is requested, printed lines stay, no \<open>gather\<close> is begun.
\<close>

definition batch_rel :: "string \<Rightarrow> world \<Rightarrow> world \<Rightarrow> bool" where
  "batch_rel rn w w' =
     (stats_grow (stats w) (stats w') \<and>
      (\<forall>r. r \<noteq> rn \<longrightarrow> map_of (stats w') r = map_of (stats w) r) \<and>
      (distinct (map fst (stats w)) \<longrightarrow> distinct (map fst (stats w'))) \<and>
      page_requests (requests w') = page_requests (requests w) \<and>
      set (console w) \<subseteq> set (console w') \<and>
      gathers w' = gathers w)"

text \<open>
  \<open>serves_pages env n0 ps\<close>: after \<open>n0\<close> earlier page requests, the server answers
  the next page requests, in order, with status 200 and the pages \<open>ps\<close>, whatever
  else has been requested in between.
\<close>

definition serves_pages :: "env \<Rightarrow> nat \<Rightarrow> page list \<Rightarrow> bool" where
  "serves_pages env n0 ps =
     (\<forall>h q k. k < length ps \<longrightarrow> length (page_requests h) = n0 + k \<longrightarrow>
        (\<exists>txt. components_reply env h q = Reply 200 txt (Inr (ps ! k))))"

text \<open>A task that has run up to its first suspension.\<close>

fun started :: "task \<Rightarrow> bool" where
  "started (NotStarted a) = False"
| "started t = True"

text \<open>
  What a started task will still add to \<open>downloaded_assets\<close> (\<open>will_complete\<close>) and
  to \<open>downloaded_size\<close> (\<open>will_deliver\<close>), read off its own state: its response or
  its remaining chunks, and whether its file can be opened.
\<close>

definition will_complete :: "env \<Rightarrow> string \<Rightarrow> task \<Rightarrow> int" where
  "will_complete env rn t =
     (case t of
        AwaitingResponse a (DlReply st body flt) \<Rightarrow>
          if st = 200 \<and> flt = None \<and> open_fault env (full_path_of rn a) = None then 1 else 0
      | Streaming a cs flt \<Rightarrow> if flt = None then 1 else 0
      | _ \<Rightarrow> 0)"

definition will_deliver :: "env \<Rightarrow> string \<Rightarrow> task \<Rightarrow> int" where
  "will_deliver env rn t =
     (case t of
        AwaitingResponse a (DlReply st body flt) \<Rightarrow>
          if st = 200 \<and> open_fault env (full_path_of rn a) = None then int (length body) else 0
      | Streaming a cs flt \<Rightarrow> int (length (concat cs))
      | _ \<Rightarrow> 0)"

text \<open>
  One step of a started task: the counters of the repository plus what the task will
  still add do not change.
\<close>

definition counters_inv :: "env \<Rightarrow> string \<Rightarrow> task \<Rightarrow> world \<Rightarrow> task \<Rightarrow> world \<Rightarrow> bool" where
  "counters_inv env rn t w t' w' =
     (map_of (stats w') rn \<noteq> None \<and> started t'
      \<and> downloadedAssets w' rn + will_complete env rn t'
          = downloadedAssets w rn + will_complete env rn t
      \<and> downloadedBytes w' rn + will_deliver env rn t'
          = downloadedBytes w rn + will_deliver env rn t)"

text \<open>The same, summed over the tasks of a batch.\<close>

definition total_complete :: "env \<Rightarrow> string \<Rightarrow> task list \<Rightarrow> int" where
  "total_complete env rn ts = sum_list (map (will_complete env rn) ts)"

definition total_deliver :: "env \<Rightarrow> string \<Rightarrow> task list \<Rightarrow> int" where
  "total_deliver env rn ts = sum_list (map (will_deliver env rn) ts)"

definition batch_inv :: "env \<Rightarrow> string \<Rightarrow> task list \<times> world \<Rightarrow> task list \<times> world \<Rightarrow> bool" where
  "batch_inv env rn tw tw' =
     (map_of (stats (snd tw')) rn \<noteq> None \<and> list_all started (fst tw')
      \<and> downloadedAssets (snd tw') rn + total_complete env rn (fst tw')
          = downloadedAssets (snd tw) rn + total_complete env rn (fst tw)
      \<and> downloadedBytes (snd tw') rn + total_deliver env rn (fst tw')
          = downloadedBytes (snd tw) rn + total_deliver env rn (fst tw))"

text \<open>
  The world after a body has been streamed to an open file whose content so far is
  \<open>old\<close>, for a repository whose statistics are \<open>s\<close>: every chunk appended and
  counted, then the handler's log entry if the stream raised, or lines 105-107.
\<close>

definition streamed :: "string \<Rightarrow> asset \<Rightarrow> bytes list \<Rightarrow> string option \<Rightarrow> repo_stats \<Rightarrow> bytes \<Rightarrow> world \<Rightarrow> world" where
  "streamed rn a cs flt s old w =
     (let s1 = s\<lparr>downloaded_size := downloaded_size s + int (length (concat cs))\<rparr>;
          w1 = w\<lparr>files := (files w)(full_path_of rn a \<mapsto> old @ concat cs),
                 stats := AList.update rn s1 (stats w)\<rparr>
      in case flt of
           Some msg \<Rightarrow> logging (Err_Downloading rn (path a) (LibError msg)) w1
         | None \<Rightarrow>
             logging (Info_Downloaded rn (path a))
               (print (Out_Downloaded rn (downloaded_assets s + 1) (path a))
                  (w1\<lparr>stats := AList.update rn
                         (s1\<lparr>downloaded_assets := downloaded_assets s + 1\<rparr>) (stats w)\<rparr>)))"

text \<open>
  The skip condition in the words of the specification: a file exists at the
  destination, the asset declares a \<open>fileSize\<close>, and the file's size equals it.
\<close>

definition up_to_date :: "world \<Rightarrow> string \<Rightarrow> asset \<Rightarrow> bool" where
  "up_to_date w rn a =
     (case files w (full_path_of rn a) of
        None \<Rightarrow> False
      | Some b \<Rightarrow> fileSize a = Some (int (length b)))"

text \<open>
  What processing repository \<open>rn\<close> may do to the statistics and the console: entries
  only grow, entries of other repositories stay, keys stay distinct, printed lines stay.
\<close>

definition repo_rel :: "string \<Rightarrow> world \<Rightarrow> world \<Rightarrow> bool" where
  "repo_rel rn w w' =
     (stats_grow (stats w) (stats w') \<and>
      (\<forall>r. r \<noteq> rn \<longrightarrow> map_of (stats w') r = map_of (stats w) r) \<and>
      (distinct (map fst (stats w)) \<longrightarrow> distinct (map fst (stats w'))) \<and>
      set (console w) \<subseteq> set (console w'))"

text \<open>The same across repositories, and with the invariants of a whole run.\<close>

definition run_rel :: "world \<Rightarrow> world \<Rightarrow> bool" where
  "run_rel w w' =
     (stats_grow (stats w) (stats w') \<and>
      (distinct (map fst (stats w)) \<longrightarrow> distinct (map fst (stats w'))) \<and>
      set (console w) \<subseteq> set (console w'))"

text \<open>Every counter is non-negative.\<close>

definition nonneg_stats :: "world \<Rightarrow> bool" where
  "nonneg_stats w =
     (\<forall>n s. map_of (stats w) n = Some s \<longrightarrow> 0 \<le> downloaded_assets s \<and> 0 \<le> downloaded_size s)"

text \<open>Every repository that has statistics has had its summary printed.\<close>

definition summaries_printed :: "world \<Rightarrow> bool" where
  "summaries_printed w =
     (\<forall>n. map_of (stats w) n \<noteq> None \<longrightarrow> Out_RepoCompleted n \<in> set (console w))"

definition run_inv :: "world \<Rightarrow> world \<Rightarrow> bool" where
  "run_inv w w' =
     (run_rel w w' \<and> (nonneg_stats w \<longrightarrow> nonneg_stats w')
      \<and> (summaries_printed w \<longrightarrow> summaries_printed w'))"

text \<open>
  Conversely, every repository whose summary has been printed has statistics.
\<close>

definition summaries_have_stats :: "world \<Rightarrow> bool" where
  "summaries_have_stats w =
     (\<forall>n. Out_RepoCompleted n \<in> set (console w) \<longrightarrow> map_of (stats w) n \<noteq> None)"

section \<open>Scenarios\<close>

text \<open>
  Concrete servers, disks and assets for the instances proved below. \<open>scenario\<close> is
  an environment in which every directory and file can be created, the clock stands at
  0, every batch is completed task by task and every body has arrived in full when it is
  first read; its three servers are parameters.
\<close>

definition scenario ::
  "(request list \<Rightarrow> repository list http_reply) \<Rightarrow>
   (request list \<Rightarrow> (string \<times> string) list \<Rightarrow> page http_reply) \<Rightarrow>
   (request list \<Rightarrow> string \<Rightarrow> dl_reply) \<Rightarrow> env" where
  "scenario rr cr ar =
     \<lparr>repositories_reply = rr, components_reply = cr, asset_reply = ar,
      makedirs_fault = (\<lambda>p. None), open_fault = (\<lambda>p. None),
      clock = (\<lambda>n. 0), interleaving = (\<lambda>n. []), buffered = (\<lambda>h u. [])\<rparr>"

definition no_listing :: "request list \<Rightarrow> repository list http_reply" where
  "no_listing h = ConnError ''connection refused''"

definition no_assets :: "request list \<Rightarrow> string \<Rightarrow> dl_reply" where
  "no_assets h u = DlConnError ''connection refused''"

text \<open>A server that answers the \<open>k\<close>-th page request with the \<open>k\<close>-th page of a list.\<close>

definition serve_in_order :: "page list \<Rightarrow> request list \<Rightarrow> (string \<times> string) list \<Rightarrow> page http_reply" where
  "serve_in_order ps h q =
     (if length (page_requests h) < length ps
      then Reply 200 [] (Inr (ps ! length (page_requests h)))
      else ConnError ''no more pages'')"

definition token_page :: "string option \<Rightarrow> page" where
  "token_page t = \<lparr>items = [], continuationToken = t\<rparr>"

text \<open>The asset of the specification's end-to-end scenario, with a chosen \<open>fileSize\<close>.\<close>

definition x_jar :: "int option \<Rightarrow> asset" where
  "x_jar sz = \<lparr>downloadUrl = ''http://localhost:8081/repository/releases/com/x/1.0/x.jar'',
               path = ''com/x/1.0/x.jar'', fileSize = sz\<rparr>"

definition serve_body :: "bytes \<Rightarrow> request list \<Rightarrow> string \<Rightarrow> dl_reply" where
  "serve_body b h u = DlReply 200 b None"

definition asset_named :: "string \<Rightarrow> asset" where
  "asset_named n =
     \<lparr>downloadUrl = ''http://localhost:8081/repository/releases/'' @ n, path = n,
      fileSize = None\<rparr>"

text \<open>
  A download server that answers a listed URL with status 200 and a body of the listed
  size, and any other URL with status 404.
\<close>

definition serve_sizes :: "(string \<times> nat) list \<Rightarrow> request list \<Rightarrow> string \<Rightarrow> dl_reply" where
  "serve_sizes m h u =
     (case map_of m u of
        Some n \<Rightarrow> DlReply 200 (replicate n CHR ''x'') None
      | None \<Rightarrow> DlReply 404 [] None)"




definition three_assets :: "asset list" where
  "three_assets = map asset_named [''a.jar'', ''b.jar'', ''c.jar'']"

definition sizes_100_200_300 :: "request list \<Rightarrow> string \<Rightarrow> dl_reply" where
  "sizes_100_200_300 =
     serve_sizes [(''http://localhost:8081/repository/releases/a.jar'', 100),
                  (''http://localhost:8081/repository/releases/b.jar'', 200),
                  (''http://localhost:8081/repository/releases/c.jar'', 300)]"

definition eleven_page :: page where
  "eleven_page =
     \<lparr>items = [\<lparr>assets = map asset_named
                  [''a1.jar'', ''a2.jar'', ''a3.jar'', ''a4.jar'', ''a5.jar'', ''a6.jar'']\<rparr>,
               \<lparr>assets = map asset_named
                  [''a7.jar'', ''a8.jar'', ''a9.jar'', ''a10.jar'', ''a11.jar'']\<rparr>],
      continuationToken = None\<rparr>"

text \<open>
  A download of 20000 bytes of which 5000 have arrived when the body is first read, and
  the rest by the second read.
\<close>

definition slow_start :: env where
  "slow_start =
     (scenario no_listing (serve_in_order []) (serve_body (replicate 20000 CHR ''x'')))
       \<lparr>buffered := (\<lambda>h u. [5000])\<rparr>"

text \<open>
  The end-to-end scenario of the specification: one repository, one page, one asset of
  12 bytes; and a server whose only repository has no assets.
\<close>

definition e2e_page :: page where
  "e2e_page = \<lparr>items = [\<lparr>assets = [x_jar (Some 12)]\<rparr>], continuationToken = None\<rparr>"

definition e2e :: env where
  "e2e = scenario (\<lambda>h. Reply 200 [] (Inr [\<lparr>name = ''releases''\<rparr>]))
           (serve_in_order [e2e_page]) (serve_body (replicate 12 CHR ''x''))"

definition empty_repo :: env where
  "empty_repo = scenario (\<lambda>h. Reply 200 [] (Inr [\<lparr>name = ''empty''\<rparr>]))
           (serve_in_order [token_page None]) no_assets"

definition e2e_world :: world where
  "e2e_world =
       \<lparr>stats = [(''releases'', \<lparr>downloaded_assets = 1, downloaded_size = 12, start_time = 0\<rparr>)],
        files = [''nexus_artifacts/releases/com/x/1.0/x.jar'' \<mapsto> replicate 12 CHR ''x''],
        requests = [GetRepositories, GetComponents [(''repository'', ''releases'')],
                    GetAsset ''http://localhost:8081/repository/releases/com/x/1.0/x.jar''],
        logs = [Info_Processing ''releases'', Info_Downloaded ''releases'' ''com/x/1.0/x.jar'',
                Info_ExportCompleted 0],
        console = [Out_Starting, Out_BaseDir, Out_Processing ''releases'',
                   Out_Downloaded ''releases'' 1 ''com/x/1.0/x.jar'',
                   Out_RepoCompleted ''releases'', Out_FilesDownloaded 1,
                   Out_TotalSize (12 / (1024 * 1024)), Out_AverageSpeed 0,
                   Out_OverallSummary, Out_TotalRepositories 1, Out_TotalFiles 1,
                   Out_TotalSizeDownloaded (12 / (1024 * 1024)), Out_TotalTime 0],
        clock_reads = 4, gathers = 1\<rparr>"


section \<open>Lemmas\<close>

lemmas prim_defs = logging_def print_def session_get_def time_time_def

lemma stats_grow_refl: "stats_grow s s"
  by (simp add: stats_grow_def)

lemma stats_grow_trans:
  assumes "stats_grow s1 s2" and "stats_grow s2 s3"
  shows "stats_grow s1 s3"
  unfolding stats_grow_def
proof (intro allI impI)
  fix r st
  assume "map_of s1 r = Some st"
  with assms(1) obtain st2 where 2: "map_of s2 r = Some st2"
      "downloaded_assets st \<le> downloaded_assets st2"
      "downloaded_size st \<le> downloaded_size st2" "start_time st2 = start_time st"
    unfolding stats_grow_def by blast
  with assms(2) obtain st3 where 3: "map_of s3 r = Some st3"
      "downloaded_assets st2 \<le> downloaded_assets st3"
      "downloaded_size st2 \<le> downloaded_size st3" "start_time st3 = start_time st2"
    unfolding stats_grow_def by blast
  show "\<exists>st'. map_of s3 r = Some st' \<and> downloaded_assets st \<le> downloaded_assets st' \<and>
          downloaded_size st \<le> downloaded_size st' \<and> start_time st' = start_time st"
    using 2 3 by (intro exI[of _ st3]) simp
qed

lemma stats_grow_new: "map_of s r = None \<Longrightarrow> stats_grow s (AList.update r x s)"
  unfolding stats_grow_def by (simp add: update_conv')

lemma stats_grow_update:
  "map_of s r = Some st \<Longrightarrow> downloaded_assets st \<le> downloaded_assets st' \<Longrightarrow>
   downloaded_size st \<le> downloaded_size st' \<Longrightarrow> start_time st' = start_time st \<Longrightarrow>
   stats_grow s (AList.update r st' s)"
  unfolding stats_grow_def by (simp add: update_conv')

lemma batch_rel_refl: "batch_rel rn w w"
  by (simp add: batch_rel_def stats_grow_refl)

lemma batch_rel_trans:
  assumes "batch_rel rn w1 w2" and "batch_rel rn w2 w3"
  shows "batch_rel rn w1 w3"
proof -
  have "stats_grow (stats w1) (stats w3)"
    using assms stats_grow_trans unfolding batch_rel_def by blast
  moreover have "\<forall>r. r \<noteq> rn \<longrightarrow> map_of (stats w3) r = map_of (stats w1) r"
    using assms unfolding batch_rel_def by simp
  moreover have "distinct (map fst (stats w1)) \<longrightarrow> distinct (map fst (stats w3))"
    using assms unfolding batch_rel_def by blast
  moreover have "page_requests (requests w3) = page_requests (requests w1)"
    using assms unfolding batch_rel_def by simp
  moreover have "set (console w1) \<subseteq> set (console w3)"
    using assms unfolding batch_rel_def by blast
  moreover have "gathers w3 = gathers w1"
    using assms unfolding batch_rel_def by simp
  ultimately show ?thesis unfolding batch_rel_def by blast
qed

lemma batch_rel_logging: "batch_rel rn w (logging e w)"
  by (simp add: batch_rel_def logging_def stats_grow_refl)

lemma batch_rel_print: "batch_rel rn w (print l w)"
  by (simp add: batch_rel_def print_def stats_grow_refl subset_insertI)

lemma batch_rel_get_asset: "batch_rel rn w (session_get (GetAsset u) w)"
  by (simp add: batch_rel_def session_get_def stats_grow_refl page_requests_def)

lemma batch_rel_files: "batch_rel rn w (w\<lparr>files := f\<rparr>)"
  by (simp add: batch_rel_def stats_grow_refl)

lemma batch_rel_init_stats: "batch_rel rn w (init_stats env rn w)"
  by (simp add: batch_rel_def init_stats_def time_time_def stats_grow_refl stats_grow_new
        update_conv' distinct_update)

lemma batch_rel_stats_update:
  "map_of (stats w) rn = Some st \<Longrightarrow> downloaded_assets st \<le> downloaded_assets st' \<Longrightarrow>
   downloaded_size st \<le> downloaded_size st' \<Longrightarrow> start_time st' = start_time st \<Longrightarrow>
   batch_rel rn w (w\<lparr>stats := AList.update rn st' (stats w)\<rparr>)"
  by (simp add: batch_rel_def stats_grow_update update_conv' distinct_update)

lemma batch_rel_files_stats_update:
  "map_of (stats w) rn = Some st \<Longrightarrow> downloaded_assets st \<le> downloaded_assets st' \<Longrightarrow>
   downloaded_size st \<le> downloaded_size st' \<Longrightarrow> start_time st' = start_time st \<Longrightarrow>
   batch_rel rn w (w\<lparr>files := f, stats := AList.update rn st' (stats w)\<rparr>)"
  by (simp add: batch_rel_def stats_grow_update update_conv' distinct_update)

lemma begin_download_cases:
  "begin_download env rn a w = (Finished, print (Out_Skipping rn (path a)) (init_stats env rn w))
   \<or> (\<exists>msg. begin_download env rn a w =
          (Finished, logging (Err_Downloading rn (path a) (LibError msg)) (init_stats env rn w)))
   \<or> begin_download env rn a w =
        (AwaitingResponse a (asset_reply env (requests (init_stats env rn w)) (downloadUrl a)),
         session_get (GetAsset (downloadUrl a)) (init_stats env rn w))"
  by (auto simp add: begin_download_def Let_def download_failed_def split: option.splits)

lemma batch_rel_begin_download: "batch_rel rn w (snd (begin_download env rn a w))"
proof -
  note i = batch_rel_init_stats[of rn w env]
  from begin_download_cases[of env rn a w] show ?thesis
  proof (elim disjE exE)
    assume "begin_download env rn a w = (Finished, print (Out_Skipping rn (path a)) (init_stats env rn w))"
    then show ?thesis using batch_rel_trans[OF i batch_rel_print] by simp
  next
    fix msg
    assume "begin_download env rn a w =
          (Finished, logging (Err_Downloading rn (path a) (LibError msg)) (init_stats env rn w))"
    then show ?thesis using batch_rel_trans[OF i batch_rel_logging] by simp
  next
    assume "begin_download env rn a w =
        (AwaitingResponse a (asset_reply env (requests (init_stats env rn w)) (downloadUrl a)),
         session_get (GetAsset (downloadUrl a)) (init_stats env rn w))"
    then show ?thesis using batch_rel_trans[OF i batch_rel_get_asset] by simp
  qed
qed

lemma batch_rel_on_response: "batch_rel rn w (snd (on_response env rn a r w))"
  unfolding on_response_def download_failed_def
  by (simp split: option.splits dl_reply.splits add: batch_rel_logging batch_rel_files)

lemma batch_rel_on_chunk: "batch_rel rn w (snd (on_chunk rn a c cs flt w))"
proof (cases "map_of (stats w) rn")
  case None
  then show ?thesis
    unfolding on_chunk_def download_failed_def Let_def file_write_def
    by (simp add: batch_rel_trans[OF batch_rel_files batch_rel_logging])
next
  case (Some s)
  then show ?thesis
    unfolding on_chunk_def download_failed_def Let_def file_write_def
    by (simp add: batch_rel_files_stats_update)
qed

lemma batch_rel_on_eof: "batch_rel rn w (snd (on_eof rn a flt w))"
proof (cases flt)
  case (Some msg)
  then show ?thesis by (simp add: on_eof_def download_failed_def batch_rel_logging)
next
  case None
  show ?thesis
  proof (cases "map_of (stats w) rn")
    case N: None
    with None show ?thesis by (simp add: on_eof_def download_failed_def batch_rel_logging)
  next
    case (Some s)
    have "batch_rel rn w (w\<lparr>stats := AList.update rn (s\<lparr>downloaded_assets := downloaded_assets s + 1\<rparr>) (stats w)\<rparr>)"
      using Some by (intro batch_rel_stats_update) simp_all
    from batch_rel_trans[OF this batch_rel_trans[OF batch_rel_print batch_rel_logging]]
    show ?thesis using None Some by (simp add: on_eof_def)
  qed
qed

lemma batch_rel_step_task: "batch_rel rn w (snd (step_task env rn t w))"
  unfolding step_task_def
  by (simp split: task.splits list.splits
       add: batch_rel_refl batch_rel_begin_download batch_rel_on_response batch_rel_on_chunk batch_rel_on_eof)

lemma batch_rel_run_stream: "batch_rel rn w (run_stream rn a cs flt w)"
proof (induction cs arbitrary: w)
  case Nil
  show ?case by (simp add: batch_rel_on_eof)
next
  case (Cons c cs)
  obtain t w1 where oc: "on_chunk rn a c cs flt w = (t, w1)" by (cases "on_chunk rn a c cs flt w")
  then have r: "batch_rel rn w w1" using batch_rel_on_chunk[of rn w a c cs flt] by simp
  show ?case
    using oc r Cons.IH[of w1] by (auto split: task.splits intro: batch_rel_trans)
qed

lemma batch_rel_finish_streaming:
  "batch_rel rn w (snd tw) \<Longrightarrow> batch_rel rn w (finish_streaming rn tw)"
  unfolding finish_streaming_def
  by (cases tw) (auto split: task.splits intro: batch_rel_trans batch_rel_run_stream)

lemma batch_rel_finish_task: "batch_rel rn w (finish_task env rn t w)"
proof (cases t)
  case (NotStarted a)
  obtain t1 w1 where b: "begin_download env rn a w = (t1, w1)" by (cases "begin_download env rn a w")
  then have r1: "batch_rel rn w w1" using batch_rel_begin_download[of rn w env a] by simp
  show ?thesis
  proof (cases t1)
    case (AwaitingResponse a' r)
    have "batch_rel rn w (snd (on_response env rn a' r w1))"
      using batch_rel_trans[OF r1 batch_rel_on_response] .
    then show ?thesis using NotStarted b AwaitingResponse
      by (simp add: finish_task_def batch_rel_finish_streaming)
  qed (use NotStarted b r1 in \<open>simp_all add: finish_task_def batch_rel_finish_streaming\<close>)
next
  case (AwaitingResponse a r)
  then show ?thesis
    by (simp add: finish_task_def batch_rel_finish_streaming batch_rel_on_response)
qed (simp_all add: finish_task_def batch_rel_finish_streaming batch_rel_refl)

lemma batch_rel_start_all: "batch_rel rn w (snd (start_all env rn ts w))"
proof (induction ts arbitrary: w)
  case Nil
  show ?case by (simp add: batch_rel_refl)
next
  case (Cons t ts)
  obtain t' w1 where s: "step_task env rn t w = (t', w1)" by (cases "step_task env rn t w")
  then have "batch_rel rn w w1" using batch_rel_step_task[of rn w env t] by simp
  from batch_rel_trans[OF this Cons.IH[of w1]] show ?case
    using s by (auto split: prod.splits)
qed

lemma batch_rel_step_nth: "batch_rel rn (snd tw) (snd (step_nth env rn i tw))"
proof (cases tw)
  case (Pair ts w)
  then show ?thesis
    using batch_rel_step_task[of rn w env "ts ! i"]
    by (auto simp add: step_nth_def batch_rel_refl split: prod.splits)
qed

lemma batch_rel_run_sched: "batch_rel rn (snd tw) (snd (run_sched env rn sched tw))"
proof (induction sched arbitrary: tw)
  case Nil
  show ?case by (simp add: batch_rel_refl)
next
  case (Cons i sched)
  from batch_rel_trans[OF batch_rel_step_nth Cons.IH] show ?case by simp
qed

lemma batch_rel_finish_all: "batch_rel rn w (finish_all env rn ts w)"
proof (induction ts arbitrary: w)
  case Nil
  show ?case by (simp add: batch_rel_refl)
next
  case (Cons t ts)
  from batch_rel_trans[OF batch_rel_finish_task Cons.IH] show ?case by simp
qed

lemma batch_rel_gather: "batch_rel rn w (gather env rn sched coros w)"
proof -
  obtain ts w1 where r: "run_sched env rn sched (start_all env rn coros w) = (ts, w1)"
    by (cases "run_sched env rn sched (start_all env rn coros w)")
  have "batch_rel rn w (snd (start_all env rn coros w))" by (rule batch_rel_start_all)
  from batch_rel_trans[OF this batch_rel_run_sched, of env sched] r
  have "batch_rel rn w w1" by simp
  from batch_rel_trans[OF this batch_rel_finish_all] show ?thesis
    using r by (simp add: gather_def)
qed

lemma get_components_cases:
  "get_components env rn tok w =
     (case components_reply env (requests w) (comp_params rn tok) of
        ConnError msg \<Rightarrow>
          (empty_page, logging (Err_GettingComponents (LibError msg))
                         (session_get (GetComponents (comp_params rn tok)) w))
      | Reply st txt js \<Rightarrow>
          if st = 200 then
            (case js of
               Inr v \<Rightarrow> (v, session_get (GetComponents (comp_params rn tok)) w)
             | Inl msg \<Rightarrow>
                 (empty_page, logging (Err_GettingComponents (LibError msg))
                                (session_get (GetComponents (comp_params rn tok)) w)))
          else (empty_page, logging (Err_FailedGetComponents st txt)
                              (session_get (GetComponents (comp_params rn tok)) w)))"
  by (simp add: get_components_def get_components_try_def Let_def
           split: http_reply.splits sum.splits)

lemma get_components_frame:
  "requests (snd (get_components env rn tok w)) = requests w @ [GetComponents (comp_params rn tok)]
   \<and> stats (snd (get_components env rn tok w)) = stats w
   \<and> console (snd (get_components env rn tok w)) = console w
   \<and> files (snd (get_components env rn tok w)) = files w
   \<and> gathers (snd (get_components env rn tok w)) = gathers w"
  by (simp add: get_components_cases logging_def session_get_def split: http_reply.splits sum.splits)

lemma pages_loop_unfold:
  "pages_loop env rn tok w =
     (if truthy (continuationToken (fst (get_components env rn tok w)))
      then pages_loop env rn (continuationToken (fst (get_components env rn tok w)))
             (download_page env rn (fst (get_components env rn tok w)) (snd (get_components env rn tok w)))
      else Some (download_page env rn (fst (get_components env rn tok w)) (snd (get_components env rn tok w))))"
  by (subst pages_loop.simps) (simp add: download_page_def split: prod.splits)

lemma download_page_page_requests:
  "page_requests (requests (download_page env rn result w1)) = page_requests (requests w1)"
proof (cases "download_tasks result = []")
  case True
  then show ?thesis by (simp add: download_page_def)
next
  case False
  have "batch_rel rn (w1\<lparr>gathers := Suc (gathers w1)\<rparr>)
          (gather env rn (interleaving env (gathers w1)) (download_tasks result) (w1\<lparr>gathers := Suc (gathers w1)\<rparr>))"
    by (rule batch_rel_gather)
  then show ?thesis using False by (simp add: download_page_def batch_rel_def)
qed

lemma serves_pages_tl:
  assumes "serves_pages env n0 (p # ps)"
  shows "serves_pages env (Suc n0) ps"
  unfolding serves_pages_def
proof (intro allI impI)
  fix h q k
  assume "k < length ps" "length (page_requests h) = Suc n0 + k"
  then have "Suc k < length (p # ps)" "length (page_requests h) = n0 + Suc k" by simp_all
  with assms obtain tx where "components_reply env h q = Reply 200 tx (Inr ((p # ps) ! Suc k))"
    unfolding serves_pages_def by blast
  then show "\<exists>txt. components_reply env h q = Reply 200 txt (Inr (ps ! k))" by auto
qed

lemma serves_pages_hd:
  assumes "serves_pages env (length (page_requests (requests w))) (p # ps)"
  shows "get_components env rn tok w = (p, session_get (GetComponents (comp_params rn tok)) w)"
proof -
  from assms obtain tx where
    "components_reply env (requests w) (comp_params rn tok) = Reply 200 tx (Inr ((p # ps) ! 0))"
    unfolding serves_pages_def by (metis add.right_neutral length_greater_0_conv list.distinct(1))
  then show ?thesis by (simp add: get_components_cases)
qed

lemma pages_loop_serves:
  assumes "serves_pages env (length (page_requests (requests w))) ps" and "ps \<noteq> []"
    and "\<forall>p \<in> set (butlast ps). truthy (continuationToken p)"
    and "\<not> truthy (continuationToken (last ps))"
  shows "\<exists>w'. pages_loop env rn tok w = Some w' \<and>
           page_requests (requests w') =
             page_requests (requests w) @
               map (\<lambda>t. GetComponents (comp_params rn t)) (tok # map continuationToken (butlast ps))"
  using assms
proof (induction ps arbitrary: w tok)
  case Nil
  then show ?case by simp
next
  case (Cons p ps)
  let ?w1 = "session_get (GetComponents (comp_params rn tok)) w"
  let ?w2 = "download_page env rn p ?w1"
  have g: "get_components env rn tok w = (p, ?w1)" using Cons.prems(1) by (rule serves_pages_hd)
  have pr: "page_requests (requests ?w2) = page_requests (requests w) @ [GetComponents (comp_params rn tok)]"
    by (simp add: download_page_page_requests) (simp add: session_get_def page_requests_def)
  show ?case
  proof (cases "ps = []")
    case True
    with Cons.prems(4) have "\<not> truthy (continuationToken p)" by simp
    then have "pages_loop env rn tok w = Some ?w2"
      by (subst pages_loop_unfold) (simp add: g)
    with pr True show ?thesis by simp
  next
    case False
    with Cons.prems(3) have t: "truthy (continuationToken p)" by simp
    then have u: "pages_loop env rn tok w = pages_loop env rn (continuationToken p) ?w2"
      by (subst pages_loop_unfold) (simp add: g)
    have s: "serves_pages env (length (page_requests (requests ?w2))) ps"
      using serves_pages_tl[OF Cons.prems(1)] pr by simp
    have b: "\<forall>p \<in> set (butlast ps). truthy (continuationToken p)"
      using Cons.prems(3) False by simp
    have l: "\<not> truthy (continuationToken (last ps))" using Cons.prems(4) False by simp
    from Cons.IH[OF s False b l, of "continuationToken p"] obtain w' where
      w': "pages_loop env rn (continuationToken p) ?w2 = Some w'"
      "page_requests (requests w') = page_requests (requests ?w2) @
          map (\<lambda>t. GetComponents (comp_params rn t)) (continuationToken p # map continuationToken (butlast ps))"
      by blast
    show ?thesis using u w' pr False by simp
  qed
qed

lemma concat_iter_chunked: "0 < n \<Longrightarrow> concat (iter_chunked n av b) = b"
proof (induction n av b rule: iter_chunked.induct)
  case (1 n b)
  show ?case
  proof (cases "b = []")
    case True
    then show ?thesis by (subst iter_chunked.simps) simp
  next
    case False
    with 1 have "concat (iter_chunked n [] (drop n b)) = drop n b" by simp
    with False 1(2) show ?thesis by (subst iter_chunked.simps) simp
  qed
next
  case (2 n k ks b)
  let ?m = "min n (max 1 k)"
  show ?case
  proof (cases "b = []")
    case True
    then show ?thesis by (subst iter_chunked.simps) simp
  next
    case False
    with 2 have "concat (iter_chunked n ks (drop ?m b)) = drop ?m b" by simp
    with False 2(2) show ?thesis by (subst iter_chunked.simps) simp
  qed
qed

lemma iter_chunked_sizes:
  "0 < n \<Longrightarrow> c \<in> set (iter_chunked n av b) \<Longrightarrow> 0 < length c \<and> length c \<le> n"
proof (induction n av b rule: iter_chunked.induct)
  case (1 n b)
  show ?case
  proof (cases "b = []")
    case True
    with 1(3) show ?thesis by (subst (asm) iter_chunked.simps) simp
  next
    case False
    from 1(3) have "c = take n b \<or> c \<in> set (iter_chunked n [] (drop n b))"
      using False 1(2) by (subst (asm) iter_chunked.simps) simp
    then show ?thesis
    proof
      assume "c = take n b"
      with False 1(2) show ?thesis by simp
    next
      assume m: "c \<in> set (iter_chunked n [] (drop n b))"
      have "\<not> (b = [] \<or> n = 0)" using False 1(2) by simp
      from 1(1)[OF this 1(2) m] show ?thesis .
    qed
  qed
next
  case (2 n k ks b)
  let ?m = "min n (max 1 k)"
  show ?case
  proof (cases "b = []")
    case True
    with 2(3) show ?thesis by (subst (asm) iter_chunked.simps) simp
  next
    case False
    from 2(3) have "c = take ?m b \<or> c \<in> set (iter_chunked n ks (drop ?m b))"
      using False 2(2) by (subst (asm) iter_chunked.simps) simp
    then show ?thesis
    proof
      assume "c = take ?m b"
      with False 2(2) show ?thesis by (cases b) (auto simp add: min_def max_def)
    next
      assume m: "c \<in> set (iter_chunked n ks (drop ?m b))"
      have "\<not> (b = [] \<or> n = 0)" using False 2(2) by simp
      from 2(1)[OF this 2(2) m] show ?thesis .
    qed
  qed
qed

text \<open>A body that has arrived in full is cut into pieces of exactly \<open>n\<close> bytes.\<close>

lemma iter_chunked_full:
  "0 < n \<Longrightarrow> c \<in> set (butlast (iter_chunked n [] b)) \<Longrightarrow> length c = n"
proof (induction "length b" arbitrary: b rule: less_induct)
  case less
  show ?case
  proof (cases "b = [] \<or> drop n b = []")
    case True
    then have "iter_chunked n [] b = [] \<or> iter_chunked n [] b = [take n b]"
      by (subst iter_chunked.simps, subst (2) iter_chunked.simps)
         (auto simp: iter_chunked.simps(1)[of n "[]"])
    with less(3) show ?thesis by auto
  next
    case False
    then have ne: "iter_chunked n [] (drop n b) \<noteq> []"
      using less(2) by (subst iter_chunked.simps) simp
    have e: "iter_chunked n [] b = take n b # iter_chunked n [] (drop n b)"
      using False less(2) by (subst iter_chunked.simps) simp
    from less(3) have "c = take n b \<or> c \<in> set (butlast (iter_chunked n [] (drop n b)))"
      using ne by (simp add: e)
    then show ?thesis
    proof
      assume "c = take n b"
      with False show ?thesis by simp
    next
      assume m: "c \<in> set (butlast (iter_chunked n [] (drop n b)))"
      have "length (drop n b) < length b" using False less(2) by simp
      from less(1)[OF this less(2) m] show ?thesis .
    qed
  qed
qed

text \<open>
  Every way of cutting a body into non-empty chunks of at most \<open>n\<close> bytes is the
  result of some pace of arrival: the one that has each chunk buffered in its turn.
\<close>

lemma iter_chunked_any:
  "0 < n \<Longrightarrow> \<forall>c \<in> set cs. c \<noteq> [] \<and> length c \<le> n \<Longrightarrow>
     iter_chunked n (map length cs @ [0]) (concat cs) = cs"
proof (induction cs)
  case Nil
  show ?case by (simp add: iter_chunked.simps)
next
  case (Cons c cs)
  then have m: "min n (max 1 (length c)) = length c" by (cases c) (auto simp add: min_def max_def)
  from Cons have ih: "iter_chunked n (map length cs @ [0]) (concat cs) = cs" by simp
  have "iter_chunked n (length c # (map length cs @ [0])) (c @ concat cs)
          = take (length c) (c @ concat cs)
             # iter_chunked n (map length cs @ [0]) (drop (length c) (c @ concat cs))"
    using Cons.prems by (subst iter_chunked.simps, simp only: m) simp
  with ih show ?case by simp
qed

lemma counters_logging [simp]:
  "downloadedAssets (logging e w) rn = downloadedAssets w rn"
  "downloadedBytes (logging e w) rn = downloadedBytes w rn"
  "stats (logging e w) = stats w"
  by (simp_all add: downloadedAssets_def downloadedBytes_def logging_def)

lemma counters_print [simp]:
  "downloadedAssets (print l w) rn = downloadedAssets w rn"
  "downloadedBytes (print l w) rn = downloadedBytes w rn"
  "stats (print l w) = stats w"
  by (simp_all add: downloadedAssets_def downloadedBytes_def print_def)

lemma on_response_counters:
  assumes "on_response env rn a r w = (t', w')"
  shows "stats w' = stats w \<and> started t'
       \<and> will_complete env rn t' = will_complete env rn (AwaitingResponse a r)
       \<and> will_deliver env rn t' = will_deliver env rn (AwaitingResponse a r)"
  using assms
  by (auto simp add: on_response_def download_failed_def will_complete_def will_deliver_def
        concat_iter_chunked logging_def
        split: dl_reply.splits option.splits if_splits)

lemma on_chunk_counters:
  assumes "on_chunk rn a c cs flt w = (t', w')" and "map_of (stats w) rn \<noteq> None"
  shows "map_of (stats w') rn \<noteq> None \<and> started t'
       \<and> downloadedAssets w' rn + will_complete env rn t'
           = downloadedAssets w rn + will_complete env rn (Streaming a (c # cs) flt)
       \<and> downloadedBytes w' rn + will_deliver env rn t'
           = downloadedBytes w rn + will_deliver env rn (Streaming a (c # cs) flt)"
  using assms
  by (auto simp add: on_chunk_def Let_def file_write_def will_complete_def will_deliver_def
        downloadedAssets_def downloadedBytes_def update_conv')

lemma on_eof_counters:
  assumes "on_eof rn a flt w = (t', w')" and "map_of (stats w) rn \<noteq> None"
  shows "map_of (stats w') rn \<noteq> None \<and> t' = Finished
       \<and> downloadedAssets w' rn = downloadedAssets w rn + will_complete env rn (Streaming a [] flt)
       \<and> downloadedBytes w' rn = downloadedBytes w rn"
  using assms
  by (auto simp add: on_eof_def download_failed_def will_complete_def
        downloadedAssets_def downloadedBytes_def update_conv' logging_def print_def
        split: option.splits)

lemma step_task_counters:
  assumes "step_task env rn t w = (t', w')" and "started t" and "map_of (stats w) rn \<noteq> None"
  shows "counters_inv env rn t w t' w'"
proof (cases t)
  case (NotStarted a)
  with assms(2) show ?thesis by simp
next
  case (AwaitingResponse a r)
  with assms(1) have "on_response env rn a r w = (t', w')" by (simp add: step_task_def)
  from on_response_counters[OF this] assms(3) AwaitingResponse show ?thesis
    by (simp add: counters_inv_def downloadedAssets_def downloadedBytes_def)
next
  case (Streaming a cs flt)
  show ?thesis
  proof (cases cs)
    case Nil
    with assms(1) Streaming have "on_eof rn a flt w = (t', w')" by (simp add: step_task_def)
    from on_eof_counters[OF this assms(3), of env] Streaming Nil show ?thesis
      by (simp add: counters_inv_def will_complete_def will_deliver_def)
  next
    case (Cons c cs')
    with assms(1) Streaming have "on_chunk rn a c cs' flt w = (t', w')" by (simp add: step_task_def)
    from on_chunk_counters[OF this assms(3), of env] Streaming Cons show ?thesis
      by (simp add: counters_inv_def)
  qed
next
  case Finished
  with assms show ?thesis by (simp add: step_task_def counters_inv_def)
qed

lemma sum_list_map_update:
  "i < length ts \<Longrightarrow>
   sum_list (map f (ts[i := t])) = sum_list (map f ts) - f (ts ! i) + (f t :: int)"
proof (induction ts arbitrary: i)
  case Nil
  then show ?case by simp
next
  case (Cons x ts)
  then show ?case by (cases i) simp_all
qed

lemma step_nth_counters:
  assumes "list_all started (fst tw)" and "map_of (stats (snd tw)) rn \<noteq> None"
  shows "batch_inv env rn tw (step_nth env rn i tw)"
proof (cases tw)
  case (Pair ts w)
  show ?thesis
  proof (cases "i < length ts")
    case False
    with Pair assms show ?thesis by (simp add: step_nth_def batch_inv_def)
  next
    case True
    obtain t' w' where s: "step_task env rn (ts ! i) w = (t', w')"
      by (cases "step_task env rn (ts ! i) w")
    have st: "started (ts ! i)" using assms(1) True Pair by (simp add: list_all_length)
    from step_task_counters[OF s st] assms(2) Pair
    have inv: "counters_inv env rn (ts ! i) w t' w'" by simp
    have la: "list_all started (ts[i := t'])"
      using assms(1) Pair inv
      by (auto simp: counters_inv_def list_all_iff dest: subsetD[OF set_update_subset_insert])
    show ?thesis
      using inv Pair True s la
      by (simp add: step_nth_def batch_inv_def counters_inv_def total_complete_def
            total_deliver_def sum_list_map_update)
  qed
qed

lemma run_sched_counters:
  assumes "list_all started (fst tw)" and "map_of (stats (snd tw)) rn \<noteq> None"
  shows "batch_inv env rn tw (run_sched env rn sched tw)"
  using assms
proof (induction sched arbitrary: tw)
  case Nil
  then show ?case by (simp add: batch_inv_def)
next
  case (Cons i sched)
  from step_nth_counters[OF Cons.prems, of env i]
  have 1: "batch_inv env rn tw (step_nth env rn i tw)" .
  then have "batch_inv env rn (step_nth env rn i tw) (run_sched env rn sched (step_nth env rn i tw))"
    by (intro Cons.IH) (simp_all add: batch_inv_def)
  with 1 show ?case by (simp add: batch_inv_def)
qed

lemma run_stream_counters:
  assumes "map_of (stats w) rn \<noteq> None"
  shows "map_of (stats (run_stream rn a cs flt w)) rn \<noteq> None
       \<and> downloadedAssets (run_stream rn a cs flt w) rn
           = downloadedAssets w rn + will_complete env rn (Streaming a cs flt)
       \<and> downloadedBytes (run_stream rn a cs flt w) rn
           = downloadedBytes w rn + will_deliver env rn (Streaming a cs flt)"
  using assms
proof (induction cs arbitrary: w)
  case Nil
  obtain t' w' where e: "on_eof rn a flt w = (t', w')" by (cases "on_eof rn a flt w")
  from on_eof_counters[OF e Nil, of env] e show ?case
    by (simp add: will_deliver_def)
next
  case (Cons c cs)
  obtain t' w' where e: "on_chunk rn a c cs flt w = (t', w')" by (cases "on_chunk rn a c cs flt w")
  note oc = on_chunk_counters[OF e Cons.prems, of env]
  have t': "t' = Streaming a cs flt"
    using e Cons.prems by (auto simp: on_chunk_def Let_def file_write_def)
  from oc Cons.IH[of w'] t' e show ?case by simp
qed

lemma on_response_shape:
  "on_response env rn a r w = (t', w') \<Longrightarrow> t' = Finished \<or> (\<exists>cs flt. t' = Streaming a cs flt)"
  by (auto simp add: on_response_def split: dl_reply.splits option.splits if_splits)

lemma finish_task_counters:
  assumes "started t" and "map_of (stats w) rn \<noteq> None"
  shows "map_of (stats (finish_task env rn t w)) rn \<noteq> None
       \<and> downloadedAssets (finish_task env rn t w) rn
           = downloadedAssets w rn + will_complete env rn t
       \<and> downloadedBytes (finish_task env rn t w) rn
           = downloadedBytes w rn + will_deliver env rn t"
proof (cases t)
  case (NotStarted a)
  with assms(1) show ?thesis by simp
next
  case (AwaitingResponse a r)
  obtain t' w' where e: "on_response env rn a r w = (t', w')" by (cases "on_response env rn a r w")
  note orc = on_response_counters[OF e]
  note sh = on_response_shape[OF e]
  show ?thesis
  proof (cases t')
    case (Streaming a' cs flt)
    from run_stream_counters[of w' rn a' cs flt env] orc assms(2) Streaming e AwaitingResponse
    show ?thesis
      by (simp add: finish_task_def finish_streaming_def downloadedAssets_def downloadedBytes_def)
  qed (use orc sh assms(2) e AwaitingResponse in
        \<open>simp_all add: finish_task_def finish_streaming_def downloadedAssets_def downloadedBytes_def
             will_complete_def will_deliver_def\<close>)
next
  case (Streaming a cs flt)
  from run_stream_counters[OF assms(2), of a cs flt env] Streaming show ?thesis
    by (simp add: finish_task_def finish_streaming_def)
next
  case Finished
  with assms show ?thesis
    by (simp add: finish_task_def finish_streaming_def will_complete_def will_deliver_def)
qed

lemma finish_all_counters:
  assumes "list_all started ts" and "map_of (stats w) rn \<noteq> None"
  shows "downloadedAssets (finish_all env rn ts w) rn
           = downloadedAssets w rn + total_complete env rn ts
       \<and> downloadedBytes (finish_all env rn ts w) rn
           = downloadedBytes w rn + total_deliver env rn ts"
  using assms
proof (induction ts arbitrary: w)
  case Nil
  then show ?case by (simp add: total_complete_def total_deliver_def)
next
  case (Cons t ts)
  from Cons.prems have st: "started t" and la: "list_all started ts" by simp_all
  note f = finish_task_counters[OF st Cons.prems(2), of env]
  from Cons.IH[OF la, of "finish_task env rn t w"] f show ?case
    by (simp add: total_complete_def total_deliver_def)
qed

lemma init_stats_counters:
  "map_of (stats (init_stats env rn w)) rn \<noteq> None
   \<and> downloadedAssets (init_stats env rn w) rn = downloadedAssets w rn
   \<and> downloadedBytes (init_stats env rn w) rn = downloadedBytes w rn
   \<and> requests (init_stats env rn w) = requests w
   \<and> files (init_stats env rn w) = files w
   \<and> logs (init_stats env rn w) = logs w
   \<and> console (init_stats env rn w) = console w"
  by (auto simp add: init_stats_def time_time_def downloadedAssets_def downloadedBytes_def update_conv')

lemma begin_download_counters:
  assumes "begin_download env rn a w = (t', w')"
  shows "map_of (stats w') rn \<noteq> None \<and> started t'
       \<and> downloadedAssets w' rn = downloadedAssets w rn
       \<and> downloadedBytes w' rn = downloadedBytes w rn"
  using begin_download_cases[of env rn a w] assms init_stats_counters[of env rn w]
  by (auto simp add: downloadedAssets_def downloadedBytes_def session_get_def)

lemma start_all_counters:
  assumes "start_all env rn (map NotStarted as) w = (ts, w1)"
  shows "list_all started ts \<and> length ts = length as
       \<and> downloadedAssets w1 rn = downloadedAssets w rn
       \<and> downloadedBytes w1 rn = downloadedBytes w rn
       \<and> (as \<noteq> [] \<or> map_of (stats w) rn \<noteq> None \<longrightarrow> map_of (stats w1) rn \<noteq> None)"
  using assms
proof (induction as arbitrary: w ts w1)
  case Nil
  then show ?case by auto
next
  case (Cons a as)
  obtain t' w' where b: "begin_download env rn a w = (t', w')" by (cases "begin_download env rn a w")
  obtain ts' w2 where s: "start_all env rn (map NotStarted as) w' = (ts', w2)"
    by (cases "start_all env rn (map NotStarted as) w'")
  from Cons.prems b s have e: "ts = t' # ts'" "w1 = w2" by (simp_all add: step_task_def)
  from Cons.IH[OF s] begin_download_counters[OF b] e show ?case by simp
qed

lemma run_sched_Nil: "run_sched env rn sched ([], w) = ([], w)"
  by (induction sched) (simp_all add: step_nth_def)

lemma gather_counters:
  assumes "start_all env rn (map NotStarted as) w = (ts, w1)"
  shows "downloadedAssets (gather env rn sched (map NotStarted as) w) rn
           = downloadedAssets w rn + total_complete env rn ts
       \<and> downloadedBytes (gather env rn sched (map NotStarted as) w) rn
           = downloadedBytes w rn + total_deliver env rn ts"
proof (cases "as = []")
  case True
  with assms show ?thesis
    by (auto simp add: gather_def run_sched_Nil total_complete_def total_deliver_def)
next
  case False
  note sa = start_all_counters[OF assms]
  with False have la: "list_all started (fst (ts, w1))" and k: "map_of (stats (snd (ts, w1))) rn \<noteq> None"
    by simp_all
  obtain ts2 w2 where r: "run_sched env rn sched (ts, w1) = (ts2, w2)"
    by (cases "run_sched env rn sched (ts, w1)")
  from run_sched_counters[OF la k, of env sched] r
  have bi: "batch_inv env rn (ts, w1) (ts2, w2)" by simp
  then have la2: "list_all started ts2" and k2: "map_of (stats w2) rn \<noteq> None"
    by (simp_all add: batch_inv_def)
  from finish_all_counters[OF la2 k2, of env] bi sa r assms show ?thesis
    by (simp add: gather_def batch_inv_def)
qed

lemma serves_in_order: "serves_pages (scenario rr (serve_in_order ps) ar) 0 ps"
  by (simp add: serves_pages_def scenario_def serve_in_order_def)

lemma get_repositories_cases:
  "get_repositories env w =
     (case repositories_reply env (requests w) of
        ConnError msg \<Rightarrow>
          (Inl (LibError msg),
           logging (Err_GettingRepositories (LibError msg)) (session_get GetRepositories w))
      | Reply st tx js \<Rightarrow>
          if st = 200 then
            (case js of
               Inr v \<Rightarrow> (Inr v, session_get GetRepositories w)
             | Inl msg \<Rightarrow>
                 (Inl (LibError msg),
                  logging (Err_GettingRepositories (LibError msg)) (session_get GetRepositories w)))
          else (Inl (FailedToGetRepositories st),
                logging (Err_GettingRepositories (FailedToGetRepositories st))
                  (logging (Err_FailedGetRepositories st tx) (session_get GetRepositories w))))"
  by (simp add: get_repositories_def get_repositories_try_def Let_def
           split: http_reply.splits sum.splits)

lemma world_files_stats_triv:
  "files w p = Some old \<Longrightarrow> map_of (stats w) rn = Some s \<Longrightarrow>
   w\<lparr>files := (files w)(p \<mapsto> old), stats := AList.update rn s (stats w)\<rparr> = w"
  by (simp add: update_triv fun_upd_idem)

lemma run_stream_streamed:
  assumes "map_of (stats w) rn = Some s" and "files w (full_path_of rn a) = Some old"
  shows "run_stream rn a cs flt w = streamed rn a cs flt s old w"
  using assms
proof (induction cs arbitrary: w s old)
  case Nil
  then show ?case
    by (simp add: streamed_def on_eof_def download_failed_def world_files_stats_triv
          split: option.splits)
next
  case (Cons c cs)
  let ?s' = "s\<lparr>downloaded_size := downloaded_size s + int (length c)\<rparr>"
  let ?w' = "w\<lparr>files := (files w)(full_path_of rn a \<mapsto> old @ c),
               stats := AList.update rn ?s' (stats w)\<rparr>"
  have oc: "on_chunk rn a c cs flt w = (Streaming a cs flt, ?w')"
    using Cons.prems by (simp add: on_chunk_def Let_def file_write_def)
  have 1: "map_of (stats ?w') rn = Some ?s'" by (simp add: update_conv')
  have 2: "files ?w' (full_path_of rn a) = Some (old @ c)" by simp
  have "run_stream rn a (c # cs) flt w = streamed rn a cs flt ?s' (old @ c) ?w'"
    using oc Cons.IH[OF 1 2] by simp
  also have "\<dots> = streamed rn a (c # cs) flt s old w"
    by (simp add: streamed_def Let_def logging_def print_def add.assoc split: option.splits)
  finally show ?case .
qed

lemma up_to_date_iff:
  "up_to_date w rn a
     = (\<exists>b. files w (full_path_of rn a) = Some b \<and> fileSize a = Some (int (length b)))"
  by (simp add: up_to_date_def split: option.splits)

lemma download_asset_unfold:
  "download_asset env a rn w =
     (if up_to_date w rn a
      then print (Out_Skipping rn (path a)) (init_stats env rn w)
      else
        (case makedirs_fault env (os_path_dirname (full_path_of rn a)) of
           Some msg \<Rightarrow> logging (Err_Downloading rn (path a) (LibError msg)) (init_stats env rn w)
         | None \<Rightarrow>
             (case asset_reply env (requests w) (downloadUrl a) of
                DlConnError msg \<Rightarrow>
                  logging (Err_Downloading rn (path a) (LibError msg))
                    (session_get (GetAsset (downloadUrl a)) (init_stats env rn w))
              | DlReply st body flt \<Rightarrow>
                  if st \<noteq> 200
                  then logging (Err_FailedDownload rn (path a) st)
                         (session_get (GetAsset (downloadUrl a)) (init_stats env rn w))
                  else
                    (case open_fault env (full_path_of rn a) of
                       Some msg \<Rightarrow>
                         logging (Err_Downloading rn (path a) (LibError msg))
                           (session_get (GetAsset (downloadUrl a)) (init_stats env rn w))
                     | None \<Rightarrow>
                         run_stream rn a (iter_chunked 8192 (buffered env (requests w @ [GetAsset (downloadUrl a)]) (downloadUrl a)) body) flt
                           ((session_get (GetAsset (downloadUrl a)) (init_stats env rn w))
                              \<lparr>files := (files w)(full_path_of rn a \<mapsto> [])\<rparr>)))))"
proof -
  have i: "files (init_stats env rn w) = files w" "requests (init_stats env rn w) = requests w"
    using init_stats_counters[of env rn w] by simp_all
  show ?thesis
    unfolding download_asset_def finish_task_def
    by (auto simp add: begin_download_def Let_def os_path_exists_def os_path_getsize_def i
          up_to_date_def
          download_failed_def finish_streaming_def on_response_def session_get_def
          split: option.splits dl_reply.splits)
qed

lemma print_proj:
  "requests (print l w) = requests w" "files (print l w) = files w" "logs (print l w) = logs w"
  "console (print l w) = console w @ [l]"
  by (simp_all add: print_def)

lemma logging_proj:
  "requests (logging e w) = requests w" "files (logging e w) = files w"
  "logs (logging e w) = logs w @ [e]" "console (logging e w) = console w"
  by (simp_all add: logging_def)

lemma session_get_proj:
  "requests (session_get r w) = requests w @ [r]" "files (session_get r w) = files w"
  "logs (session_get r w) = logs w" "console (session_get r w) = console w"
  "stats (session_get r w) = stats w"
  "downloadedAssets (session_get r w) rn = downloadedAssets w rn"
  "downloadedBytes (session_get r w) rn = downloadedBytes w rn"
  by (simp_all add: session_get_def downloadedAssets_def downloadedBytes_def)

lemma init_stats_entry:
  "\<exists>s. map_of (stats (init_stats env rn w)) rn = Some s
       \<and> downloaded_assets s = downloadedAssets w rn
       \<and> downloaded_size s = downloadedBytes w rn"
  by (auto simp add: init_stats_def time_time_def downloadedAssets_def downloadedBytes_def update_conv')

lemma streamed_proj:
  "requests (streamed rn a cs flt s old w) = requests w"
  "files (streamed rn a cs flt s old w) = (files w)(full_path_of rn a \<mapsto> old @ concat cs)"
  "console (streamed rn a cs flt s old w)
     = (case flt of None \<Rightarrow> console w @ [Out_Downloaded rn (downloaded_assets s + 1) (path a)]
                  | Some msg \<Rightarrow> console w)"
  "logs (streamed rn a cs flt s old w)
     = (case flt of None \<Rightarrow> logs w @ [Info_Downloaded rn (path a)]
                  | Some msg \<Rightarrow> logs w @ [Err_Downloading rn (path a) (LibError msg)])"
  "downloadedAssets (streamed rn a cs flt s old w) rn
     = downloaded_assets s + (if flt = None then 1 else 0)"
  "downloadedBytes (streamed rn a cs flt s old w) rn
     = downloaded_size s + int (length (concat cs))"
  by (simp_all add: streamed_def Let_def logging_def print_def downloadedAssets_def
        downloadedBytes_def update_conv' split: option.splits)

lemma download_asset_streams:
  assumes "\<not> up_to_date w rn a"
    and "makedirs_fault env (os_path_dirname (full_path_of rn a)) = None"
    and "open_fault env (full_path_of rn a) = None"
    and "asset_reply env (requests w) (downloadUrl a) = DlReply 200 body flt"
  shows "\<exists>s. downloaded_assets s = downloadedAssets w rn
           \<and> downloaded_size s = downloadedBytes w rn
           \<and> download_asset env a rn w =
               streamed rn a (iter_chunked 8192 (buffered env (requests w @ [GetAsset (downloadUrl a)]) (downloadUrl a)) body) flt s []
                 ((session_get (GetAsset (downloadUrl a)) (init_stats env rn w))
                    \<lparr>files := (files w)(full_path_of rn a \<mapsto> [])\<rparr>)"
proof -
  from init_stats_entry[of env rn w] obtain s where
    s: "map_of (stats (init_stats env rn w)) rn = Some s"
       "downloaded_assets s = downloadedAssets w rn" "downloaded_size s = downloadedBytes w rn"
    by blast
  let ?w2 = "(session_get (GetAsset (downloadUrl a)) (init_stats env rn w))
                    \<lparr>files := (files w)(full_path_of rn a \<mapsto> [])\<rparr>"
  have "run_stream rn a (iter_chunked 8192 (buffered env (requests w @ [GetAsset (downloadUrl a)]) (downloadUrl a)) body) flt ?w2
          = streamed rn a (iter_chunked 8192 (buffered env (requests w @ [GetAsset (downloadUrl a)]) (downloadUrl a)) body) flt s [] ?w2"
    by (rule run_stream_streamed) (simp_all add: s session_get_def)
  then have "download_asset env a rn w = streamed rn a (iter_chunked 8192 (buffered env (requests w @ [GetAsset (downloadUrl a)]) (downloadUrl a)) body) flt s [] ?w2"
    using assms by (simp add: download_asset_unfold)
  with s show ?thesis by blast
qed

lemma download_asset_console:
  "console (download_asset env a rn w) = console w @ [Out_Skipping rn (path a)]
     \<longleftrightarrow> up_to_date w rn a"
proof (cases "up_to_date w rn a")
  case True
  then show ?thesis
    using init_stats_counters[of env rn w] by (simp add: download_asset_unfold print_proj)
next
  case nc: False
  note i = init_stats_counters[of env rn w]
  show ?thesis
  proof (cases "makedirs_fault env (os_path_dirname (full_path_of rn a)) = None
                  \<and> open_fault env (full_path_of rn a) = None
                  \<and> (\<exists>body flt. asset_reply env (requests w) (downloadUrl a) = DlReply 200 body flt)")
    case True
    then obtain body flt where r: "asset_reply env (requests w) (downloadUrl a) = DlReply 200 body flt"
      and m: "makedirs_fault env (os_path_dirname (full_path_of rn a)) = None"
      and p: "open_fault env (full_path_of rn a) = None"
      by blast
    from download_asset_streams[OF nc m p r] obtain s where
      "download_asset env a rn w = streamed rn a (iter_chunked 8192 (buffered env (requests w @ [GetAsset (downloadUrl a)]) (downloadUrl a)) body) flt s []
               ((session_get (GetAsset (downloadUrl a)) (init_stats env rn w))
                  \<lparr>files := (files w)(full_path_of rn a \<mapsto> [])\<rparr>)" by blast
    then show ?thesis using i nc by (simp add: streamed_proj session_get_def split: option.splits)
  next
    case False
    then show ?thesis using nc i
      by (auto simp add: download_asset_unfold logging_proj session_get_proj
            split: option.splits dl_reply.splits)
  qed
qed

lemma download_asset_requests:
  assumes "\<not> up_to_date w rn a"
    and "makedirs_fault env (os_path_dirname (full_path_of rn a)) = None"
  shows "requests (download_asset env a rn w) = requests w @ [GetAsset (downloadUrl a)]"
proof (cases "open_fault env (full_path_of rn a) = None
              \<and> (\<exists>body flt. asset_reply env (requests w) (downloadUrl a) = DlReply 200 body flt)")
  case True
  then obtain body flt where r: "asset_reply env (requests w) (downloadUrl a) = DlReply 200 body flt"
    and p: "open_fault env (full_path_of rn a) = None"
    by blast
  from download_asset_streams[OF assms p r] obtain s where
    "download_asset env a rn w = streamed rn a (iter_chunked 8192 (buffered env (requests w @ [GetAsset (downloadUrl a)]) (downloadUrl a)) body) flt s []
             ((session_get (GetAsset (downloadUrl a)) (init_stats env rn w))
                \<lparr>files := (files w)(full_path_of rn a \<mapsto> [])\<rparr>)" by blast
  then show ?thesis using init_stats_counters[of env rn w] by (simp add: streamed_proj session_get_def)
next
  case False
  then show ?thesis using assms init_stats_counters[of env rn w]
    by (auto simp add: download_asset_unfold logging_proj session_get_proj
          split: option.splits dl_reply.splits)
qed

lemma full_path_x_jar:
  "full_path_of ''releases'' (x_jar sz) = ''nexus_artifacts/releases/com/x/1.0/x.jar''"
  by (simp add: full_path_of_def x_jar_def os_path_join_def join_step_def BASE_OUTPUT_DIR_def)

lemma x_jar_proj:
  "downloadUrl (x_jar sz) = ''http://localhost:8081/repository/releases/com/x/1.0/x.jar''"
  "path (x_jar sz) = ''com/x/1.0/x.jar''" "fileSize (x_jar sz) = sz"
  by (simp_all add: x_jar_def)

lemma scenario_proj:
  "repositories_reply (scenario rr cr ar) = rr" "components_reply (scenario rr cr ar) = cr"
  "asset_reply (scenario rr cr ar) = ar" "makedirs_fault (scenario rr cr ar) p = None"
  "open_fault (scenario rr cr ar) p = None" "clock (scenario rr cr ar) n = 0"
  "interleaving (scenario rr cr ar) n = []" "buffered (scenario rr cr ar) h u = []"
  by (simp_all add: scenario_def)

lemma dirname_x_jar:
  "os_path_dirname ''nexus_artifacts/releases/com/x/1.0/x.jar'' = ''nexus_artifacts/releases/com/x/1.0''"
  by (simp add: os_path_dirname_def)

lemma asset_named_proj:
  "downloadUrl (asset_named n) = ''http://localhost:8081/repository/releases/'' @ n"
  "path (asset_named n) = n" "fileSize (asset_named n) = None"
  by (simp_all add: asset_named_def)




lemma init_stats_others: "r \<noteq> rn \<Longrightarrow> map_of (stats (init_stats env rn w)) r = map_of (stats w) r"
  by (simp add: init_stats_def time_time_def update_conv')


lemmas start_defs = step_task_def begin_download_def Let_def init_stats_def time_time_def
  os_path_exists_def init_world_def scenario_proj session_get_def asset_named_proj


lemma counters_init_world:
  "downloadedAssets (init_world d) r = 0" "downloadedBytes (init_world d) r = 0"
  by (simp_all add: downloadedAssets_def downloadedBytes_def init_world_def)

lemma all_succeed_totals:
  assumes "length bodies = length as"
    and "\<forall>a \<in> set as. open_fault env (full_path_of rn a) = None"
  shows "total_complete env rn (map2 (\<lambda>a b. AwaitingResponse a (DlReply 200 b None)) as bodies)
           = int (length as)
       \<and> total_deliver env rn (map2 (\<lambda>a b. AwaitingResponse a (DlReply 200 b None)) as bodies)
           = int (sum_list (map length bodies))"
  using assms
proof (induction bodies as rule: list_induct2)
  case Nil
  show ?case by (simp add: total_complete_def total_deliver_def)
next
  case (Cons b bodies a as)
  then show ?case
    by (simp add: total_complete_def total_deliver_def will_complete_def will_deliver_def)
qed

lemma step_streaming_chunk:
  assumes "map_of (stats w) rn \<noteq> None"
  shows "fst (step_task env rn (Streaming a (c # cs) flt) w) = Streaming a cs flt
       \<and> downloadedBytes (snd (step_task env rn (Streaming a (c # cs) flt) w)) rn
           = downloadedBytes w rn + int (length c)
       \<and> downloadedAssets (snd (step_task env rn (Streaming a (c # cs) flt) w)) rn
           = downloadedAssets w rn
       \<and> files (snd (step_task env rn (Streaming a (c # cs) flt) w)) (full_path_of rn a)
           = Some ((case files w (full_path_of rn a) of Some old \<Rightarrow> old | None \<Rightarrow> []) @ c)"
  using assms
  by (auto simp add: step_task_def on_chunk_def Let_def file_write_def downloadedAssets_def
        downloadedBytes_def update_conv')

lemma step_streaming_eof:
  assumes "map_of (stats w) rn \<noteq> None"
  shows "fst (step_task env rn (Streaming a [] None) w) = Finished
       \<and> downloadedAssets (snd (step_task env rn (Streaming a [] None) w)) rn
           = downloadedAssets w rn + 1
       \<and> downloadedBytes (snd (step_task env rn (Streaming a [] None) w)) rn
           = downloadedBytes w rn"
  using assms
  by (auto simp add: step_task_def on_eof_def downloadedAssets_def downloadedBytes_def update_conv')

lemma three_started:
  "start_all (scenario no_listing (serve_in_order []) sizes_100_200_300) ''releases''
          (map NotStarted three_assets) (init_world Map.empty)
     = (map2 (\<lambda>a b. AwaitingResponse a (DlReply 200 b None)) three_assets
          [replicate 100 CHR ''x'', replicate 200 CHR ''x'', replicate 300 CHR ''x''],
        snd (start_all (scenario no_listing (serve_in_order []) sizes_100_200_300) ''releases''
          (map NotStarted three_assets) (init_world Map.empty)))"
proof -
  have "fst (start_all (scenario no_listing (serve_in_order []) sizes_100_200_300) ''releases''
          (map NotStarted three_assets) (init_world Map.empty))
     = map2 (\<lambda>a b. AwaitingResponse a (DlReply 200 b None)) three_assets
          [replicate 100 CHR ''x'', replicate 200 CHR ''x'', replicate 300 CHR ''x'']"
    by (simp add: three_assets_def sizes_100_200_300_def serve_sizes_def start_defs)
  then show ?thesis by (metis prod.collapse)
qed

lemma download_tasks_assets:
  "download_tasks result = map NotStarted (concat (map assets (items result)))"
  by (simp add: download_tasks_def map_concat comp_def)

lemma start_all_in_flight:
  assumes "\<forall>p. files w p = None" and "\<forall>p. makedirs_fault env p = None"
  shows "in_flight (fst (start_all env rn (map NotStarted as) w)) = length as"
  using assms(1)
proof (induction as arbitrary: w)
  case Nil
  show ?case by (simp add: in_flight_def)
next
  case (Cons a as)
  let ?w1 = "session_get (GetAsset (downloadUrl a)) (init_stats env rn w)"
  have f: "files (init_stats env rn w) = files w" using init_stats_counters[of env rn w] by simp
  have b: "begin_download env rn a w
             = (AwaitingResponse a (asset_reply env (requests (init_stats env rn w)) (downloadUrl a)), ?w1)"
    using Cons.prems assms(2) by (simp add: begin_download_def Let_def os_path_exists_def f)
  have "\<forall>p. files ?w1 p = None" using Cons.prems f by (simp add: session_get_proj)
  from Cons.IH[OF this] show ?case
    by (auto simp add: step_task_def b in_flight_def split: prod.splits)
qed

lemma repo_rel_refl: "repo_rel rn w w"
  by (simp add: repo_rel_def stats_grow_refl)

lemma repo_rel_trans:
  assumes "repo_rel rn w1 w2" and "repo_rel rn w2 w3"
  shows "repo_rel rn w1 w3"
proof -
  have "stats_grow (stats w1) (stats w3)"
    using assms stats_grow_trans unfolding repo_rel_def by blast
  moreover have "\<forall>r. r \<noteq> rn \<longrightarrow> map_of (stats w3) r = map_of (stats w1) r"
    using assms unfolding repo_rel_def by simp
  moreover have "distinct (map fst (stats w1)) \<longrightarrow> distinct (map fst (stats w3))"
    using assms unfolding repo_rel_def by blast
  moreover have "set (console w1) \<subseteq> set (console w3)"
    using assms unfolding repo_rel_def by blast
  ultimately show ?thesis unfolding repo_rel_def by blast
qed

lemma batch_rel_repo_rel: "batch_rel rn w w' \<Longrightarrow> repo_rel rn w w'"
  by (simp add: batch_rel_def repo_rel_def)

lemma repo_rel_same:
  "stats w' = stats w \<Longrightarrow> set (console w) \<subseteq> set (console w') \<Longrightarrow> repo_rel rn w w'"
  by (simp add: repo_rel_def stats_grow_refl)

lemma repo_rel_get_components: "repo_rel rn w (snd (get_components env rn tok w))"
  using get_components_frame[of env rn tok w] by (simp add: repo_rel_same)

lemma repo_rel_download_page: "repo_rel rn w (download_page env rn result w)"
proof (cases "download_tasks result = []")
  case True
  then show ?thesis by (simp add: download_page_def repo_rel_refl)
next
  case False
  have "repo_rel rn w (w\<lparr>gathers := Suc (gathers w)\<rparr>)" by (simp add: repo_rel_same)
  moreover have "repo_rel rn (w\<lparr>gathers := Suc (gathers w)\<rparr>)
     (gather env rn (interleaving env (gathers w)) (download_tasks result) (w\<lparr>gathers := Suc (gathers w)\<rparr>))"
    by (rule batch_rel_repo_rel[OF batch_rel_gather])
  ultimately show ?thesis using False by (simp add: download_page_def) (rule repo_rel_trans)
qed

lemma repo_rel_page:
  "repo_rel rn w (download_page env rn (fst (get_components env rn tok w))
                    (snd (get_components env rn tok w)))"
  by (rule repo_rel_trans[OF repo_rel_get_components repo_rel_download_page])

lemma repo_rel_pages_loop:
  assumes "pages_loop env rn tok w = Some w'"
  shows "repo_rel rn w w'"
proof (rule pages_loop.raw_induct[where P = "\<lambda>e r t v y. repo_rel r v y", OF _ assms], goal_cases)
  case (1 f e r t v y)
  let ?g = "get_components e r t v"
  let ?w2 = "download_page e r (fst ?g) (snd ?g)"
  have rr: "repo_rel r v ?w2" by (rule repo_rel_page)
  show ?case
  proof (cases "truthy (continuationToken (fst ?g))")
    case True
    with 1(2) have "f e r (continuationToken (fst ?g)) ?w2 = Some y"
      by (simp add: case_prod_beta)
    from repo_rel_trans[OF rr 1(1)[OF this]] show ?thesis .
  next
    case False
    with 1(2) have "y = ?w2" by (simp add: case_prod_beta)
    with rr show ?thesis by simp
  qed
qed

lemma repo_summary_console:
  "console (repo_summary env rn w) =
     (case map_of (stats w) rn of
        None \<Rightarrow> console w
      | Some s \<Rightarrow>
          console w @
            [Out_RepoCompleted rn, Out_FilesDownloaded (downloaded_assets s),
             Out_TotalSize (real_of_int (downloaded_size s) / (1024 * 1024)),
             Out_AverageSpeed
               (if clock env (clock_reads w) - start_time s > 0
                then (real_of_int (downloaded_size s) / (1024 * 1024))
                       / (clock env (clock_reads w) - start_time s)
                else 0)])"
  by (simp add: repo_summary_def time_time_def print_def Let_def split: option.splits)

lemma repo_summary_stats: "stats (repo_summary env rn w) = stats w"
  by (simp add: repo_summary_def time_time_def print_def Let_def split: option.splits)

lemma repo_rel_repo_summary: "repo_rel rn w (repo_summary env rn w)"
  by (rule repo_rel_same) (auto simp add: repo_summary_stats repo_summary_console split: option.splits)

lemma process_repository_cases:
  "process_repository env repo w =
     (case makedirs_fault env (os_path_join BASE_OUTPUT_DIR [name repo]) of
        Some msg \<Rightarrow>
          Some (logging (Err_ProcessingRepository (name repo) (LibError msg))
                  (logging (Info_Processing (name repo)) (print (Out_Processing (name repo)) w)))
      | None \<Rightarrow>
          map_option (repo_summary env (name repo))
            (pages_loop env (name repo) None
               (logging (Info_Processing (name repo)) (print (Out_Processing (name repo)) w))))"
  by (simp add: process_repository_def Let_def split: option.splits)

lemma repo_rel_process_repository:
  assumes "process_repository env repo w = Some w'"
  shows "repo_rel (name repo) w w'"
proof -
  let ?w1 = "logging (Info_Processing (name repo)) (print (Out_Processing (name repo)) w)"
  have 1: "repo_rel (name repo) w ?w1"
    by (rule repo_rel_same) (auto simp add: logging_def print_def)
  show ?thesis
  proof (cases "makedirs_fault env (os_path_join BASE_OUTPUT_DIR [name repo])")
    case (Some msg)
    with assms have "w' = logging (Err_ProcessingRepository (name repo) (LibError msg)) ?w1"
      by (simp add: process_repository_cases)
    moreover have "repo_rel (name repo) ?w1 (logging (Err_ProcessingRepository (name repo) (LibError msg)) ?w1)"
      by (rule repo_rel_same) (simp_all add: logging_proj)
    ultimately show ?thesis using 1 by (simp only:) (rule repo_rel_trans)
  next
    case None
    with assms obtain w2 where l: "pages_loop env (name repo) None ?w1 = Some w2"
      and w': "w' = repo_summary env (name repo) w2"
      by (auto simp add: process_repository_cases)
    from repo_rel_trans[OF 1 repo_rel_trans[OF repo_rel_pages_loop[OF l] repo_rel_repo_summary]]
    show ?thesis using w' by simp
  qed
qed

lemma summaries_process_repository:
  assumes "process_repository env repo w = Some w'" and "summaries_printed w"
  shows "summaries_printed w'"
  unfolding summaries_printed_def
proof (intro allI impI)
  fix n assume n: "map_of (stats w') n \<noteq> None"
  note rr = repo_rel_process_repository[OF assms(1)]
  let ?w1 = "logging (Info_Processing (name repo)) (print (Out_Processing (name repo)) w)"
  show "Out_RepoCompleted n \<in> set (console w')"
  proof (cases "n = name repo")
    case False
    with rr n have "map_of (stats w) n \<noteq> None" by (simp add: repo_rel_def)
    with assms(2) have "Out_RepoCompleted n \<in> set (console w)" by (simp add: summaries_printed_def)
    with rr show ?thesis by (auto simp add: repo_rel_def)
  next
    case True
    show ?thesis
    proof (cases "makedirs_fault env (os_path_join BASE_OUTPUT_DIR [name repo])")
      case (Some msg)
      with assms(1) have "stats w' = stats w"
        by (auto simp add: process_repository_cases logging_def print_def)
      with n assms(2) have "Out_RepoCompleted n \<in> set (console w)" by (simp add: summaries_printed_def)
      with rr show ?thesis by (auto simp add: repo_rel_def)
    next
      case None
      with assms(1) obtain w2 where l: "pages_loop env (name repo) None ?w1 = Some w2"
        and w': "w' = repo_summary env (name repo) w2"
        by (auto simp add: process_repository_cases)
      from n w' True have "map_of (stats w2) (name repo) \<noteq> None" by (simp add: repo_summary_stats)
      then show ?thesis using w' True by (auto simp add: repo_summary_console)
    qed
  qed
qed

lemma run_stream_preserves:
  assumes step: "\<And>t w. I w \<Longrightarrow> I (snd (step_task env rn t w))" and "I w"
  shows "I (run_stream rn a cs flt w)"
  using assms(2)
proof (induction cs arbitrary: w)
  case Nil
  from step[OF Nil, of "Streaming a [] flt"] show ?case by (simp add: step_task_def)
next
  case (Cons c cs)
  from step[OF Cons.prems, of "Streaming a (c # cs) flt"]
  have "I (snd (on_chunk rn a c cs flt w))" by (simp add: step_task_def)
  then show ?case using Cons.IH
    by (cases "on_chunk rn a c cs flt w") (auto split: task.splits)
qed

lemma finish_streaming_preserves:
  assumes step: "\<And>t w. I w \<Longrightarrow> I (snd (step_task env rn t w))" and "I (snd tw)"
  shows "I (finish_streaming rn tw)"
  using assms(2) run_stream_preserves[of I env rn, OF step]
  by (cases tw) (auto simp add: finish_streaming_def split: task.splits)

lemma finish_task_preserves:
  assumes step: "\<And>t w. I w \<Longrightarrow> I (snd (step_task env rn t w))" and "I w"
  shows "I (finish_task env rn t w)"
proof (cases t)
  case (NotStarted a)
  from step[OF assms(2), of "NotStarted a"]
  have b: "I (snd (begin_download env rn a w))" by (simp add: step_task_def)
  obtain t1 w1 where e: "begin_download env rn a w = (t1, w1)" by (cases "begin_download env rn a w")
  with b have w1: "I w1" by simp
  show ?thesis
  proof (cases t1)
    case (AwaitingResponse a' r)
    from step[OF w1, of "AwaitingResponse a' r"]
    have "I (snd (on_response env rn a' r w1))" by (simp add: step_task_def)
    from finish_streaming_preserves[of I env rn, OF step this]
    show ?thesis using NotStarted e AwaitingResponse by (simp add: finish_task_def)
  qed (use NotStarted e finish_streaming_preserves[of I env rn "(t1, w1)", OF step] w1 in
        \<open>simp_all add: finish_task_def\<close>)
next
  case (AwaitingResponse a r)
  from step[OF assms(2), of "AwaitingResponse a r"]
  have "I (snd (on_response env rn a r w))" by (simp add: step_task_def)
  from finish_streaming_preserves[of I env rn, OF step this]
  show ?thesis using AwaitingResponse by (simp add: finish_task_def)
qed (use finish_streaming_preserves[of I env rn "(t, w)", OF step] assms(2) in
      \<open>simp_all add: finish_task_def\<close>)

lemma start_all_preserves:
  assumes step: "\<And>t w. I w \<Longrightarrow> I (snd (step_task env rn t w))" and "I w"
  shows "I (snd (start_all env rn ts w))"
  using assms(2)
proof (induction ts arbitrary: w)
  case Nil
  then show ?case by simp
next
  case (Cons t ts)
  from Cons.IH[OF step[OF Cons.prems, of t]] show ?case
    by (auto split: prod.splits)
qed

lemma run_sched_preserves:
  assumes step: "\<And>t w. I w \<Longrightarrow> I (snd (step_task env rn t w))" and "I (snd tw)"
  shows "I (snd (run_sched env rn sched tw))"
  using assms(2)
proof (induction sched arbitrary: tw)
  case Nil
  then show ?case by simp
next
  case (Cons i sched)
  have "I (snd (step_nth env rn i tw))"
    using Cons.prems step[of "snd tw" "fst tw ! i"]
    by (cases tw) (auto simp add: step_nth_def split: prod.splits)
  from Cons.IH[OF this] show ?case by simp
qed

lemma finish_all_preserves:
  assumes step: "\<And>t w. I w \<Longrightarrow> I (snd (step_task env rn t w))" and "I w"
  shows "I (finish_all env rn ts w)"
  using assms(2)
proof (induction ts arbitrary: w)
  case Nil
  then show ?case by simp
next
  case (Cons t ts)
  from Cons.IH[OF finish_task_preserves[of I env rn, OF step Cons.prems]] show ?case by simp
qed

lemma gather_preserves:
  assumes step: "\<And>t w. I w \<Longrightarrow> I (snd (step_task env rn t w))" and "I w"
  shows "I (gather env rn sched coros w)"
proof -
  have "I (snd (run_sched env rn sched (start_all env rn coros w)))"
    by (rule run_sched_preserves[of I, OF step start_all_preserves[of I, OF step assms(2)]])
  from finish_all_preserves[of I env rn, OF step this] show ?thesis
    by (simp add: gather_def case_prod_beta)
qed

lemma nonneg_step:
  assumes "nonneg_stats w"
  shows "nonneg_stats (snd (step_task env rn t w))"
proof -
  have upd: "nonneg_stats (w'\<lparr>stats := AList.update rn s (stats w')\<rparr>)"
    if "nonneg_stats w'" "0 \<le> downloaded_assets s" "0 \<le> downloaded_size s" for w' s
    using that by (auto simp add: nonneg_stats_def update_conv')
  have same: "nonneg_stats w'" if "stats w' = stats w''" "nonneg_stats w''" for w' w''
    using that by (simp add: nonneg_stats_def)
  have i: "nonneg_stats (init_stats env rn w)"
    using assms by (auto simp add: init_stats_def time_time_def nonneg_stats_def update_conv')
  show ?thesis
  proof (cases t)
    case (NotStarted a)
    from begin_download_cases[of env rn a w] i show ?thesis
      by (auto simp add: NotStarted step_task_def intro: same[where w''="init_stats env rn w"]
            simp add: logging_def print_def session_get_def)
  next
    case (AwaitingResponse a r)
    from on_response_counters[of env rn a r w] assms show ?thesis
      by (cases "on_response env rn a r w")
         (auto simp add: AwaitingResponse step_task_def intro: same[where w''=w])
  next
    case (Streaming a cs flt)
    show ?thesis
    proof (cases cs)
      case Nil
      show ?thesis
        using assms
        by (auto simp add: Streaming Nil step_task_def on_eof_def download_failed_def
              nonneg_stats_def update_conv' logging_def print_def split: option.splits)
    next
      case (Cons c cs')
      show ?thesis
        using assms
        by (auto simp add: Streaming Cons step_task_def on_chunk_def download_failed_def Let_def
              file_write_def nonneg_stats_def update_conv' logging_def split: option.splits)
    qed
  next
    case Finished
    with assms show ?thesis by (simp add: step_task_def)
  qed
qed

lemma nonneg_download_page:
  assumes "nonneg_stats w"
  shows "nonneg_stats (download_page env rn result w)"
proof -
  have "nonneg_stats (w\<lparr>gathers := Suc (gathers w)\<rparr>)" using assms by (simp add: nonneg_stats_def)
  from gather_preserves[of nonneg_stats env rn, OF nonneg_step this] assms
  show ?thesis by (simp add: download_page_def)
qed

lemma nonneg_pages_loop:
  assumes "pages_loop env rn tok w = Some w'"
  shows "nonneg_stats w \<longrightarrow> nonneg_stats w'"
proof (rule pages_loop.raw_induct[where P = "\<lambda>e r t v y. nonneg_stats v \<longrightarrow> nonneg_stats y", OF _ assms], goal_cases)
  case (1 f e r t v y)
  let ?g = "get_components e r t v"
  let ?w2 = "download_page e r (fst ?g) (snd ?g)"
  have n: "nonneg_stats v \<longrightarrow> nonneg_stats ?w2"
  proof
    assume "nonneg_stats v"
    then have "nonneg_stats (snd ?g)"
      using get_components_frame[of e r t v] by (simp add: nonneg_stats_def)
    then show "nonneg_stats ?w2" by (rule nonneg_download_page)
  qed
  show ?case
  proof (cases "truthy (continuationToken (fst ?g))")
    case True
    with 1(2) have "f e r (continuationToken (fst ?g)) ?w2 = Some y"
      by (simp add: case_prod_beta)
    from 1(1)[OF this] n show ?thesis by blast
  next
    case False
    with 1(2) have "y = ?w2" by (simp add: case_prod_beta)
    with n show ?thesis by simp
  qed
qed

lemma nonneg_process_repository:
  assumes "process_repository env repo w = Some w'" and "nonneg_stats w"
  shows "nonneg_stats w'"
proof -
  let ?w1 = "logging (Info_Processing (name repo)) (print (Out_Processing (name repo)) w)"
  have 1: "nonneg_stats ?w1" using assms(2) by (simp add: nonneg_stats_def)
  show ?thesis
  proof (cases "makedirs_fault env (os_path_join BASE_OUTPUT_DIR [name repo])")
    case (Some msg)
    with assms(1) 1 show ?thesis
      by (auto simp add: process_repository_cases nonneg_stats_def)
  next
    case None
    with assms(1) obtain w2 where l: "pages_loop env (name repo) None ?w1 = Some w2"
      and w': "w' = repo_summary env (name repo) w2"
      by (auto simp add: process_repository_cases)
    from nonneg_pages_loop[OF l] 1 have "nonneg_stats w2" by simp
    then show ?thesis using w' by (simp add: nonneg_stats_def repo_summary_stats)
  qed
qed

lemma run_rel_refl: "run_rel w w"
  by (simp add: run_rel_def stats_grow_refl)

lemma run_rel_trans:
  assumes "run_rel w1 w2" and "run_rel w2 w3"
  shows "run_rel w1 w3"
proof -
  have "stats_grow (stats w1) (stats w3)"
    using assms stats_grow_trans unfolding run_rel_def by blast
  moreover have "distinct (map fst (stats w1)) \<longrightarrow> distinct (map fst (stats w3))"
    using assms unfolding run_rel_def by blast
  moreover have "set (console w1) \<subseteq> set (console w3)"
    using assms unfolding run_rel_def by blast
  ultimately show ?thesis unfolding run_rel_def by blast
qed

lemma repo_rel_run_rel: "repo_rel rn w w' \<Longrightarrow> run_rel w w'"
  by (simp add: repo_rel_def run_rel_def)

lemma run_rel_same:
  "stats w' = stats w \<Longrightarrow> set (console w) \<subseteq> set (console w') \<Longrightarrow> run_rel w w'"
  by (simp add: run_rel_def stats_grow_refl)

lemma run_inv_process_all:
  "process_all env repos w = Some w' \<Longrightarrow> run_inv w w'"
proof (induction repos arbitrary: w)
  case Nil
  then show ?case by (simp add: run_inv_def run_rel_refl)
next
  case (Cons repo repos)
  from Cons.prems obtain w1 where p: "process_repository env repo w = Some w1"
    and r: "process_all env repos w1 = Some w'"
    by (auto split: option.splits)
  from Cons.IH[OF r] have i: "run_inv w1 w'" .
  have "run_rel w w1" by (rule repo_rel_run_rel[OF repo_rel_process_repository[OF p]])
  with i nonneg_process_repository[OF p] summaries_process_repository[OF p]
  show ?case unfolding run_inv_def by (blast intro: run_rel_trans)
qed

lemma run_inv_same:
  assumes "stats w' = stats w" and "set (console w) \<subseteq> set (console w')"
  shows "run_inv w w'"
  using assms
  by (auto simp add: run_inv_def run_rel_same nonneg_stats_def summaries_printed_def)

lemma run_inv_trans: "run_inv w1 w2 \<Longrightarrow> run_inv w2 w3 \<Longrightarrow> run_inv w1 w3"
  unfolding run_inv_def by (blast intro: run_rel_trans)

lemma get_repositories_frame:
  "stats (snd (get_repositories env w)) = stats w
   \<and> console (snd (get_repositories env w)) = console w"
  by (simp add: get_repositories_cases logging_def session_get_def
        split: http_reply.splits sum.splits)

lemma run_inv_export_all:
  assumes "export_all env w = Some (res, w')"
  shows "run_inv w w'"
proof (cases "makedirs_fault env BASE_OUTPUT_DIR")
  case (Some msg)
  with assms show ?thesis by (simp add: export_all_def run_inv_same)
next
  case None
  obtain r w1 where g: "get_repositories env w = (r, w1)" by (cases "get_repositories env w")
  with get_repositories_frame[of env w] have 1: "run_inv w w1" by (simp add: run_inv_same)
  show ?thesis
  proof (cases r)
    case (Inl e)
    with assms None g have "w' = print (Out_ErrorOccurred e) (logging (Err_ExportAll e) w1)"
      by (simp add: export_all_def)
    then have "run_inv w1 w'" by (auto intro!: run_inv_same simp add: print_def logging_def)
    with 1 show ?thesis by (rule run_inv_trans)
  next
    case (Inr repos)
    show ?thesis
    proof (cases "repos = []")
      case True
      with assms None g Inr have "w' = print Out_NoRepositories w1" by (simp add: export_all_def)
      then have "run_inv w1 w'" by (auto intro!: run_inv_same simp add: print_def)
      with 1 show ?thesis by (rule run_inv_trans)
    next
      case False
      with assms None g Inr have "process_all env repos w1 = Some w'"
        by (auto simp add: export_all_def split: option.splits)
      from run_inv_trans[OF 1 run_inv_process_all[OF this]] show ?thesis .
    qed
  qed
qed

lemma overall_summary_proj:
  "stats (overall_summary d w) = stats w"
  "console (overall_summary d w) =
     console w @
       [Out_OverallSummary, Out_TotalRepositories (length (stats w)),
        Out_TotalFiles (sum_list (map (\<lambda>kv. downloaded_assets (snd kv)) (stats w))),
        Out_TotalSizeDownloaded
          (real_of_int (sum_list (map (\<lambda>kv. downloaded_size (snd kv)) (stats w))) / (1024 * 1024)),
        Out_TotalTime d] @
       (if d > 0
        then [Out_OverallSpeed
                ((real_of_int (sum_list (map (\<lambda>kv. downloaded_size (snd kv)) (stats w))) / d)
                   / (1024 * 1024))]
        else [])"
  by (simp_all add: overall_summary_def Let_def print_def logging_def)

lemma main_returns:
  assumes "main env disk = Some (Inr (), w_end)"
  shows "\<exists>w1 u. export_all env (print Out_BaseDir (print Out_Starting
                   ((init_world disk)\<lparr>clock_reads := Suc 0\<rparr>))) = Some (Inr u, w1)
           \<and> w_end = overall_summary (clock env (clock_reads w1) - clock env 0)
                    (w1\<lparr>clock_reads := Suc (clock_reads w1)\<rparr>)"
  using assms
  by (auto simp add: main_def time_time_def init_world_def split: option.splits sum.splits prod.splits)

lemma iter_chunked_small:
  assumes "b \<noteq> []" and "length b \<le> n"
  shows "iter_chunked n [] b = [b]"
proof -
  from assms have "0 < n" by (cases b) auto
  with assms show ?thesis
    by (subst iter_chunked.simps, subst iter_chunked.simps) simp
qed

lemma gather_single:
  "gather env rn [] [NotStarted a] w = download_asset env a rn w"
  using begin_download_cases[of env rn a w]
  by (auto simp add: gather_def download_asset_def finish_task_def step_task_def
        finish_streaming_def split: task.splits prod.splits)

lemma empty_repo_run:
  "main empty_repo Map.empty =
     Some (Inr (),
       \<lparr>stats = [], files = Map.empty,
        requests = [GetRepositories, GetComponents [(''repository'', ''empty'')]],
        logs = [Info_Processing ''empty'', Info_ExportCompleted 0],
        console = [Out_Starting, Out_BaseDir, Out_Processing ''empty'', Out_OverallSummary,
                   Out_TotalRepositories 0, Out_TotalFiles 0, Out_TotalSizeDownloaded 0,
                   Out_TotalTime 0],
        clock_reads = 2, gathers = 0\<rparr>)"
  by (simp add: main_def empty_repo_def time_time_def init_world_def export_all_def
        scenario_proj get_repositories_cases prim_defs process_repository_cases
        pages_loop_unfold get_components_cases serve_in_order_def page_requests_def
        comp_params_def token_page_def truthy_def download_page_def download_tasks_def
        repo_summary_def overall_summary_def Let_def)

lemma e2e_run:
  "main e2e Map.empty =
     Some (Inr (),
       \<lparr>stats = [(''releases'', \<lparr>downloaded_assets = 1, downloaded_size = 12, start_time = 0\<rparr>)],
        files = [''nexus_artifacts/releases/com/x/1.0/x.jar'' \<mapsto> replicate 12 CHR ''x''],
        requests = [GetRepositories, GetComponents [(''repository'', ''releases'')],
                    GetAsset ''http://localhost:8081/repository/releases/com/x/1.0/x.jar''],
        logs = [Info_Processing ''releases'', Info_Downloaded ''releases'' ''com/x/1.0/x.jar'',
                Info_ExportCompleted 0],
        console = [Out_Starting, Out_BaseDir, Out_Processing ''releases'',
                   Out_Downloaded ''releases'' 1 ''com/x/1.0/x.jar'',
                   Out_RepoCompleted ''releases'', Out_FilesDownloaded 1,
                   Out_TotalSize (12 / (1024 * 1024)), Out_AverageSpeed 0,
                   Out_OverallSummary, Out_TotalRepositories 1, Out_TotalFiles 1,
                   Out_TotalSizeDownloaded (12 / (1024 * 1024)), Out_TotalTime 0],
        clock_reads = 4, gathers = 1\<rparr>)"
  by (simp add: main_def e2e_def e2e_page_def time_time_def init_world_def export_all_def
        scenario_proj get_repositories_cases prim_defs process_repository_cases
        pages_loop_unfold get_components_cases serve_in_order_def page_requests_def
        comp_params_def truthy_def download_page_def download_tasks_def gather_single
        download_asset_unfold up_to_date_def full_path_x_jar x_jar_proj serve_body_def
        iter_chunked_small on_chunk_def on_eof_def file_write_def init_stats_def
        repo_summary_def overall_summary_def Let_def)

lemma main_stats:
  assumes "main env disk = Some (res, w_end)"
  shows "\<exists>r1 w1. export_all env (print Out_BaseDir (print Out_Starting
                   ((init_world disk)\<lparr>clock_reads := Suc 0\<rparr>))) = Some (r1, w1)
           \<and> stats w_end = stats w1 \<and> set (console w1) \<subseteq> set (console w_end)"
  using assms
  by (auto simp add: main_def time_time_def init_world_def overall_summary_proj
        split: option.splits sum.splits prod.splits)

lemma main_inv:
  assumes "main env disk = Some (res, w_end)"
  shows "distinct (map fst (stats w_end)) \<and> nonneg_stats w_end \<and> summaries_printed w_end"
proof -
  let ?w0 = "print Out_BaseDir (print Out_Starting ((init_world disk)\<lparr>clock_reads := Suc 0\<rparr>))"
  from main_stats[OF assms] obtain r1 w1 where
    e: "export_all env ?w0 = Some (r1, w1)" and s: "stats w_end = stats w1"
    and c: "set (console w1) \<subseteq> set (console w_end)" by blast
  have 0: "stats ?w0 = []" by (simp add: print_def init_world_def)
  from run_inv_export_all[OF e] 0
  have "distinct (map fst (stats w1)) \<and> nonneg_stats w1 \<and> summaries_printed w1"
    by (simp add: run_inv_def run_rel_def nonneg_stats_def summaries_printed_def)
  then have i: "distinct (map fst (stats w1))" "nonneg_stats w1" "summaries_printed w1"
    by simp_all
  have "summaries_printed w_end"
    unfolding summaries_printed_def
  proof (intro allI impI)
    fix n
    assume "map_of (stats w_end) n \<noteq> None"
    with s have "map_of (stats w1) n \<noteq> None" by simp
    with i(3) have "Out_RepoCompleted n \<in> set (console w1)" by (simp add: summaries_printed_def)
    with c show "Out_RepoCompleted n \<in> set (console w_end)" by blast
  qed
  with s i show ?thesis by (simp add: nonneg_stats_def)
qed



lemmas run_defs = time_time_def init_world_def scenario_proj prim_defs
  pages_loop_unfold get_components_cases serve_in_order_def page_requests_def
  comp_params_def truthy_def download_page_def download_tasks_def gather_single
  download_asset_unfold up_to_date_def full_path_x_jar x_jar_proj serve_body_def
  iter_chunked_small on_chunk_def on_eof_def file_write_def init_stats_def Let_def

lemma e2e_repo:
  "process_repository e2e \<lparr>name = ''releases''\<rparr> (init_world Map.empty) =
     Some \<lparr>stats = [(''releases'', \<lparr>downloaded_assets = 1, downloaded_size = 12, start_time = 0\<rparr>)],
        files = [''nexus_artifacts/releases/com/x/1.0/x.jar'' \<mapsto> replicate 12 CHR ''x''],
        requests = [GetComponents [(''repository'', ''releases'')],
                    GetAsset ''http://localhost:8081/repository/releases/com/x/1.0/x.jar''],
        logs = [Info_Processing ''releases'', Info_Downloaded ''releases'' ''com/x/1.0/x.jar''],
        console = [Out_Processing ''releases'',
                   Out_Downloaded ''releases'' 1 ''com/x/1.0/x.jar'',
                   Out_RepoCompleted ''releases'', Out_FilesDownloaded 1,
                   Out_TotalSize (12 / (1024 * 1024)), Out_AverageSpeed 0],
        clock_reads = 2, gathers = 1\<rparr>"
  by (simp add: e2e_def e2e_page_def process_repository_cases repo_summary_def run_defs)


subsection \<open>Completing a task is stepping it until it has finished\<close>

lemma run_stream_step:
  "run_stream rn a cs flt w =
     (case step_task env rn (Streaming a cs flt) w of
        (Streaming a' cs' flt', w1) \<Rightarrow> run_stream rn a' cs' flt' w1
      | (t, w1) \<Rightarrow> w1)"
proof (cases cs)
  case Nil
  then show ?thesis
    by (cases "on_eof rn a flt w")
       (auto simp add: step_task_def on_eof_def split: option.splits task.splits)
next
  case (Cons c cs')
  then show ?thesis
    by (cases "on_chunk rn a c cs' flt w")
       (auto simp add: step_task_def on_chunk_def Let_def split: option.splits task.splits)
qed

lemma finish_task_step:
  "finish_task env rn t w =
     (if t = Finished then w
      else (case step_task env rn t w of (t', w') \<Rightarrow> finish_task env rn t' w'))"
proof (cases t)
  case (NotStarted a)
  from begin_download_cases[of env rn a w] show ?thesis
    by (auto simp add: NotStarted finish_task_def step_task_def finish_streaming_def)
next
  case (AwaitingResponse a r)
  obtain t' w' where e: "on_response env rn a r w = (t', w')" by (cases "on_response env rn a r w")
  from on_response_shape[OF e] e show ?thesis
    by (auto simp add: AwaitingResponse finish_task_def step_task_def finish_streaming_def)
next
  case (Streaming a cs flt)
  show ?thesis
  proof (cases cs)
    case Nil
    then show ?thesis
      by (cases "on_eof rn a flt w")
         (auto simp add: Streaming finish_task_def finish_streaming_def step_task_def on_eof_def
            split: option.splits)
  next
    case (Cons c cs')
    then show ?thesis
      by (cases "on_chunk rn a c cs' flt w")
         (auto simp add: Streaming finish_task_def finish_streaming_def step_task_def on_chunk_def
            Let_def split: option.splits)
  qed
next
  case Finished
  then show ?thesis by (simp add: finish_task_def finish_streaming_def)
qed

subsection \<open>Which repositories have statistics, and which a summary\<close>

text \<open>An entry of \<open>stats\<close> is never removed.\<close>

lemma stats_grow_entry: "stats_grow s s' \<Longrightarrow> map_of s r \<noteq> None \<Longrightarrow> map_of s' r \<noteq> None"
  unfolding stats_grow_def by fastforce

text \<open>A batch with at least one task leaves an entry for its repository.\<close>

lemma gather_entry:
  assumes "as \<noteq> [] \<or> map_of (stats w) rn \<noteq> None"
  shows "map_of (stats (gather env rn sched (map NotStarted as) w)) rn \<noteq> None"
proof -
  obtain ts w1 where s: "start_all env rn (map NotStarted as) w = (ts, w1)"
    by (cases "start_all env rn (map NotStarted as) w")
  from start_all_counters[OF s] assms have 1: "map_of (stats w1) rn \<noteq> None" by blast
  obtain ts2 w2 where r: "run_sched env rn sched (ts, w1) = (ts2, w2)"
    by (cases "run_sched env rn sched (ts, w1)")
  from batch_rel_run_sched[of rn "(ts, w1)" env sched] r have "stats_grow (stats w1) (stats w2)"
    by (simp add: batch_rel_def)
  from stats_grow_entry[OF this 1] have 2: "map_of (stats w2) rn \<noteq> None" .
  from batch_rel_finish_all[of rn w2 env ts2] have "stats_grow (stats w2) (stats (finish_all env rn ts2 w2))"
    by (simp add: batch_rel_def)
  from stats_grow_entry[OF this 2] show ?thesis using s r by (simp add: gather_def)
qed

lemma download_page_entry:
  assumes "download_tasks result \<noteq> [] \<or> map_of (stats w) rn \<noteq> None"
  shows "map_of (stats (download_page env rn result w)) rn \<noteq> None"
proof (cases "download_tasks result = []")
  case True
  with assms show ?thesis by (simp add: download_page_def)
next
  case False
  then have "concat (map assets (items result)) \<noteq> []" by (simp add: download_tasks_assets)
  from gather_entry[of "concat (map assets (items result))" "w\<lparr>gathers := Suc (gathers w)\<rparr>" rn env
         "interleaving env (gathers w)"] this
  show ?thesis using False by (simp add: download_page_def download_tasks_assets)
qed

lemma download_page_no_assets:
  "download_tasks result = [] \<Longrightarrow> download_page env rn result w = w"
  by (simp add: download_page_def)

text \<open>So does every single call of \<open>download_asset\<close>, whatever becomes of the asset.\<close>

lemma download_asset_entry: "map_of (stats (download_asset env a rn w)) rn \<noteq> None"
  using gather_entry[of "[a]" w rn env "[]"] by (simp add: gather_single)

text \<open>No step of a download task prints the first line of a summary.\<close>

lemma step_task_no_summary:
  "Out_RepoCompleted n \<in> set (console (snd (step_task env rn t w)))
     \<longleftrightarrow> Out_RepoCompleted n \<in> set (console w)"
proof (cases t)
  case (NotStarted a)
  from begin_download_cases[of env rn a w] init_stats_counters[of env rn w]
  show ?thesis
    by (auto simp add: NotStarted step_task_def print_def logging_def session_get_def)
next
  case (AwaitingResponse a r)
  show ?thesis
    by (auto simp add: AwaitingResponse step_task_def on_response_def download_failed_def logging_def
          split: dl_reply.splits option.splits)
next
  case (Streaming a cs flt)
  show ?thesis
  proof (cases cs)
    case Nil
    show ?thesis
      by (auto simp add: Streaming Nil step_task_def on_eof_def download_failed_def logging_def
            print_def split: option.splits)
  next
    case (Cons c cs')
    show ?thesis
      by (auto simp add: Streaming Cons step_task_def on_chunk_def download_failed_def Let_def
            file_write_def logging_def split: option.splits)
  qed
next
  case Finished
  show ?thesis by (simp add: Finished step_task_def)
qed

lemma summaries_have_stats_step:
  assumes "summaries_have_stats w"
  shows "summaries_have_stats (snd (step_task env rn t w))"
  unfolding summaries_have_stats_def
proof (intro allI impI)
  fix n
  assume "Out_RepoCompleted n \<in> set (console (snd (step_task env rn t w)))"
  then have "Out_RepoCompleted n \<in> set (console w)" by (simp add: step_task_no_summary)
  with assms have 1: "map_of (stats w) n \<noteq> None" by (simp add: summaries_have_stats_def)
  from batch_rel_step_task[of rn w env t]
  have "stats_grow (stats w) (stats (snd (step_task env rn t w)))" by (simp add: batch_rel_def)
  from stats_grow_entry[OF this 1] show "map_of (stats (snd (step_task env rn t w))) n \<noteq> None" .
qed

lemma summaries_have_stats_download_page:
  assumes "summaries_have_stats w"
  shows "summaries_have_stats (download_page env rn result w)"
proof -
  have "summaries_have_stats (w\<lparr>gathers := Suc (gathers w)\<rparr>)"
    using assms by (simp add: summaries_have_stats_def)
  from gather_preserves[of summaries_have_stats env rn, OF summaries_have_stats_step this] assms
  show ?thesis by (simp add: download_page_def)
qed

lemma summaries_have_stats_pages_loop:
  assumes "pages_loop env rn tok w = Some w'"
  shows "summaries_have_stats w \<longrightarrow> summaries_have_stats w'"
proof (rule pages_loop.raw_induct[where P = "\<lambda>e r t v y. summaries_have_stats v \<longrightarrow> summaries_have_stats y", OF _ assms], goal_cases)
  case (1 f e r t v y)
  let ?g = "get_components e r t v"
  let ?w2 = "download_page e r (fst ?g) (snd ?g)"
  have n: "summaries_have_stats v \<longrightarrow> summaries_have_stats ?w2"
  proof
    assume "summaries_have_stats v"
    then have "summaries_have_stats (snd ?g)"
      using get_components_frame[of e r t v] by (simp add: summaries_have_stats_def)
    then show "summaries_have_stats ?w2" by (rule summaries_have_stats_download_page)
  qed
  show ?case
  proof (cases "truthy (continuationToken (fst ?g))")
    case True
    with 1(2) have "f e r (continuationToken (fst ?g)) ?w2 = Some y"
      by (simp add: case_prod_beta)
    from 1(1)[OF this] n show ?thesis by blast
  next
    case False
    with 1(2) have "y = ?w2" by (simp add: case_prod_beta)
    with n show ?thesis by simp
  qed
qed

lemma summaries_have_stats_process_repository:
  assumes "process_repository env repo w = Some w'" and "summaries_have_stats w"
  shows "summaries_have_stats w'"
proof -
  let ?w1 = "logging (Info_Processing (name repo)) (print (Out_Processing (name repo)) w)"
  have 1: "summaries_have_stats ?w1"
    using assms(2) by (auto simp add: summaries_have_stats_def logging_def print_def)
  show ?thesis
  proof (cases "makedirs_fault env (os_path_join BASE_OUTPUT_DIR [name repo])")
    case (Some msg)
    with assms(1) 1 show ?thesis
      by (auto simp add: process_repository_cases summaries_have_stats_def logging_def)
  next
    case None
    with assms(1) obtain w2 where l: "pages_loop env (name repo) None ?w1 = Some w2"
      and w': "w' = repo_summary env (name repo) w2"
      by (auto simp add: process_repository_cases)
    from summaries_have_stats_pages_loop[OF l] 1 have "summaries_have_stats w2" by simp
    then show ?thesis using w'
      by (auto simp add: summaries_have_stats_def repo_summary_stats repo_summary_console
            split: option.splits)
  qed
qed

lemma summaries_have_stats_process_all:
  "process_all env repos w = Some w' \<Longrightarrow> summaries_have_stats w \<Longrightarrow> summaries_have_stats w'"
proof (induction repos arbitrary: w)
  case Nil
  then show ?case by simp
next
  case (Cons repo repos)
  from Cons.prems obtain w1 where p: "process_repository env repo w = Some w1"
    and r: "process_all env repos w1 = Some w'"
    by (auto split: option.splits)
  from Cons.IH[OF r summaries_have_stats_process_repository[OF p Cons.prems(2)]] show ?case .
qed

lemma processed_process_all:
  "process_all env repos w = Some w' \<Longrightarrow>
     set (console w) \<subseteq> set (console w') \<and> (\<forall>r \<in> set repos. Out_Processing (name r) \<in> set (console w'))"
proof (induction repos arbitrary: w)
  case Nil
  then show ?case by simp
next
  case (Cons repo repos)
  from Cons.prems obtain w1 where p: "process_repository env repo w = Some w1"
    and r: "process_all env repos w1 = Some w'"
    by (auto split: option.splits)
  let ?w0 = "logging (Info_Processing (name repo)) (print (Out_Processing (name repo)) w)"
  have "Out_Processing (name repo) \<in> set (console w1)"
  proof (cases "makedirs_fault env (os_path_join BASE_OUTPUT_DIR [name repo])")
    case (Some msg)
    with p show ?thesis by (auto simp add: process_repository_cases logging_def print_def)
  next
    case None
    with p obtain w2 where l: "pages_loop env (name repo) None ?w0 = Some w2"
      and w1: "w1 = repo_summary env (name repo) w2"
      by (auto simp add: process_repository_cases)
    from repo_rel_pages_loop[OF l] have "set (console ?w0) \<subseteq> set (console w2)"
      by (simp add: repo_rel_def)
    then have "Out_Processing (name repo) \<in> set (console w2)"
      by (auto simp add: logging_def print_def)
    then show ?thesis using w1 by (auto simp add: repo_summary_console split: option.splits)
  qed
  moreover from repo_rel_process_repository[OF p] have "set (console w) \<subseteq> set (console w1)"
    by (simp add: repo_rel_def)
  ultimately show ?case using Cons.IH[OF r] by auto
qed

text \<open>
  When the server serves the pages \<open>ps\<close>, the loop returns, and the repository has
  statistics afterwards exactly if it had before or some page holds an asset.
\<close>

lemma pages_loop_serves_stats:
  assumes "serves_pages env (length (page_requests (requests w))) ps" and "ps \<noteq> []"
    and "\<forall>p \<in> set (butlast ps). truthy (continuationToken p)"
    and "\<not> truthy (continuationToken (last ps))"
  shows "\<exists>w'. pages_loop env rn tok w = Some w' \<and>
           (map_of (stats w') rn \<noteq> None \<longleftrightarrow>
              map_of (stats w) rn \<noteq> None \<or> (\<exists>p \<in> set ps. download_tasks p \<noteq> []))
         \<and> ((\<forall>p \<in> set ps. download_tasks p = []) \<longrightarrow>
              stats w' = stats w \<and> console w' = console w)"
  using assms
proof (induction ps arbitrary: w tok)
  case Nil
  then show ?case by simp
next
  case (Cons p ps)
  let ?w1 = "session_get (GetComponents (comp_params rn tok)) w"
  let ?w2 = "download_page env rn p ?w1"
  have g: "get_components env rn tok w = (p, ?w1)" using Cons.prems(1) by (rule serves_pages_hd)
  have pr: "page_requests (requests ?w2) = page_requests (requests w) @ [GetComponents (comp_params rn tok)]"
    by (simp only: download_page_page_requests) (simp add: session_get_def page_requests_def)
  have e1: "map_of (stats ?w2) rn \<noteq> None \<longleftrightarrow> map_of (stats w) rn \<noteq> None \<or> download_tasks p \<noteq> []"
  proof (cases "download_tasks p = []")
    case True
    then show ?thesis by (simp add: download_page_no_assets session_get_proj)
  next
    case False
    with download_page_entry[of p ?w1 rn env] show ?thesis by simp
  qed
  have e2: "download_tasks p = [] \<longrightarrow> stats ?w2 = stats w \<and> console ?w2 = console w"
    by (simp add: download_page_no_assets session_get_proj)
  show ?case
  proof (cases "ps = []")
    case True
    with Cons.prems(4) have "\<not> truthy (continuationToken p)" by simp
    then have "pages_loop env rn tok w = Some ?w2"
      by (subst pages_loop_unfold) (simp add: g)
    with e1 e2 True show ?thesis by simp
  next
    case False
    with Cons.prems(3) have t: "truthy (continuationToken p)" by simp
    then have u: "pages_loop env rn tok w = pages_loop env rn (continuationToken p) ?w2"
      by (subst pages_loop_unfold) (simp add: g)
    have s: "serves_pages env (length (page_requests (requests ?w2))) ps"
      using serves_pages_tl[OF Cons.prems(1)] pr by simp
    have b: "\<forall>p \<in> set (butlast ps). truthy (continuationToken p)"
      using Cons.prems(3) False by simp
    have l: "\<not> truthy (continuationToken (last ps))" using Cons.prems(4) False by simp
    from Cons.IH[OF s False b l, of "continuationToken p"] obtain w' where
      w': "pages_loop env rn (continuationToken p) ?w2 = Some w'"
      and i1: "map_of (stats w') rn \<noteq> None \<longleftrightarrow>
              map_of (stats ?w2) rn \<noteq> None \<or> (\<exists>p \<in> set ps. download_tasks p \<noteq> [])"
      and i2: "(\<forall>p \<in> set ps. download_tasks p = []) \<longrightarrow>
              stats w' = stats ?w2 \<and> console w' = console ?w2"
      by blast
    have c1: "map_of (stats w') rn \<noteq> None \<longleftrightarrow>
              map_of (stats w) rn \<noteq> None \<or> (\<exists>q \<in> set (p # ps). download_tasks q \<noteq> [])"
      using i1 e1 by auto
    have c2: "(\<forall>q \<in> set (p # ps). download_tasks q = []) \<longrightarrow>
              stats w' = stats w \<and> console w' = console w"
      using i2 e2 by simp
    show ?thesis using u w' c1 c2 by simp
  qed
qed

lemma process_repository_serves:
  assumes m: "makedirs_fault env (os_path_join BASE_OUTPUT_DIR [name repo]) = None"
    and s: "serves_pages env (length (page_requests (requests w))) ps" and ne: "ps \<noteq> []"
    and b: "\<forall>p \<in> set (butlast ps). truthy (continuationToken p)"
    and l: "\<not> truthy (continuationToken (last ps))"
  shows "\<exists>w'. process_repository env repo w = Some w'
         \<and> (map_of (stats w') (name repo) \<noteq> None \<longleftrightarrow>
              map_of (stats w) (name repo) \<noteq> None \<or> (\<exists>p \<in> set ps. download_tasks p \<noteq> []))
         \<and> (\<forall>st. map_of (stats w') (name repo) = Some st \<longrightarrow>
              (\<exists>pre v. console w' =
                 pre @ [Out_RepoCompleted (name repo), Out_FilesDownloaded (downloaded_assets st),
                        Out_TotalSize (real_of_int (downloaded_size st) / (1024 * 1024)),
                        Out_AverageSpeed v]))
         \<and> (map_of (stats w) (name repo) = None \<and> (\<forall>p \<in> set ps. download_tasks p = []) \<longrightarrow>
              stats w' = stats w \<and> console w' = console w @ [Out_Processing (name repo)])"
proof -
  let ?w1 = "logging (Info_Processing (name repo)) (print (Out_Processing (name repo)) w)"
  have "requests ?w1 = requests w" by (simp add: logging_def print_def)
  with s have s1: "serves_pages env (length (page_requests (requests ?w1))) ps" by simp
  from pages_loop_serves_stats[OF s1 ne b l, of "name repo" None] obtain w2 where
    w2: "pages_loop env (name repo) None ?w1 = Some w2"
    and i1: "map_of (stats w2) (name repo) \<noteq> None \<longleftrightarrow>
              map_of (stats ?w1) (name repo) \<noteq> None \<or> (\<exists>p \<in> set ps. download_tasks p \<noteq> [])"
    and i2: "(\<forall>p \<in> set ps. download_tasks p = []) \<longrightarrow>
              stats w2 = stats ?w1 \<and> console w2 = console ?w1"
    by blast
  let ?w' = "repo_summary env (name repo) w2"
  have p: "process_repository env repo w = Some ?w'"
    using m w2 by (simp add: process_repository_cases)
  have a: "map_of (stats ?w') (name repo) \<noteq> None \<longleftrightarrow>
              map_of (stats w) (name repo) \<noteq> None \<or> (\<exists>p \<in> set ps. download_tasks p \<noteq> [])"
    using i1 by (simp add: repo_summary_stats)
  have c: "\<forall>st. map_of (stats ?w') (name repo) = Some st \<longrightarrow>
              (\<exists>pre v. console ?w' =
                 pre @ [Out_RepoCompleted (name repo), Out_FilesDownloaded (downloaded_assets st),
                        Out_TotalSize (real_of_int (downloaded_size st) / (1024 * 1024)),
                        Out_AverageSpeed v])"
    by (auto simp add: repo_summary_stats repo_summary_console)
  have d: "map_of (stats w) (name repo) = None \<and> (\<forall>p \<in> set ps. download_tasks p = []) \<longrightarrow>
              stats ?w' = stats w \<and> console ?w' = console w @ [Out_Processing (name repo)]"
    using i2 by (auto simp add: repo_summary_stats repo_summary_console logging_def print_def)
  show ?thesis using p a c d by blast
qed

text \<open>The run as a whole.\<close>

lemma main_export:
  assumes "main env disk = Some (Inr (), w_end)"
  shows "\<exists>w1 d. export_all env
                  (print Out_BaseDir (print Out_Starting ((init_world disk)\<lparr>clock_reads := Suc 0\<rparr>)))
                = Some (Inr (), w1)
           \<and> stats w_end = stats w1
           \<and> console w_end = console (overall_summary d w1)"
proof -
  from main_returns[OF assms] obtain w1 u where
    e: "export_all env (print Out_BaseDir (print Out_Starting ((init_world disk)\<lparr>clock_reads := Suc 0\<rparr>)))
          = Some (Inr u, w1)"
    and w: "w_end = overall_summary (clock env (clock_reads w1) - clock env 0)
                    (w1\<lparr>clock_reads := Suc (clock_reads w1)\<rparr>)"
    by blast
  have "console w_end = console (overall_summary (clock env (clock_reads w1) - clock env 0) w1)"
    using w by (simp add: overall_summary_proj)
  moreover have "stats w_end = stats w1" using w by (simp add: overall_summary_proj)
  ultimately show ?thesis using e by auto
qed

lemma summaries_have_stats_export_all:
  assumes "export_all env w = Some (res, w')" and "summaries_have_stats w"
  shows "summaries_have_stats w'"
proof (cases "makedirs_fault env BASE_OUTPUT_DIR")
  case (Some msg)
  with assms show ?thesis by (simp add: export_all_def)
next
  case None
  obtain r w1 where g: "get_repositories env w = (r, w1)" by (cases "get_repositories env w")
  with get_repositories_frame[of env w] assms(2) have 1: "summaries_have_stats w1"
    by (simp add: summaries_have_stats_def)
  show ?thesis
  proof (cases r)
    case (Inl e)
    with assms None g have "w' = print (Out_ErrorOccurred e) (logging (Err_ExportAll e) w1)"
      by (simp add: export_all_def)
    with 1 show ?thesis by (auto simp add: summaries_have_stats_def print_def logging_def)
  next
    case (Inr repos)
    show ?thesis
    proof (cases "repos = []")
      case True
      with assms None g Inr have "w' = print Out_NoRepositories w1" by (simp add: export_all_def)
      with 1 show ?thesis by (auto simp add: summaries_have_stats_def print_def)
    next
      case False
      with assms None g Inr have "process_all env repos w1 = Some w'"
        by (auto simp add: export_all_def split: option.splits)
      from summaries_have_stats_process_all[OF this 1] show ?thesis .
    qed
  qed
qed

lemma main_summaries_have_stats:
  assumes "main env disk = Some (Inr (), w_end)"
  shows "Out_RepoCompleted n \<in> set (console w_end) \<longrightarrow> map_of (stats w_end) n \<noteq> None"
proof -
  let ?w0 = "print Out_BaseDir (print Out_Starting ((init_world disk)\<lparr>clock_reads := Suc 0\<rparr>))"
  from main_export[OF assms] obtain w1 d where
    e: "export_all env ?w0 = Some (Inr (), w1)" and s: "stats w_end = stats w1"
    and c: "console w_end = console (overall_summary d w1)" by blast
  have "summaries_have_stats ?w0"
    by (simp add: summaries_have_stats_def print_def init_world_def)
  from summaries_have_stats_export_all[OF e this] have "summaries_have_stats w1" .
  then show ?thesis using s c
    by (auto simp add: summaries_have_stats_def overall_summary_proj split: if_splits)
qed

lemma main_processed:
  assumes "main env disk = Some (Inr (), w_end)"
    and "repositories_reply env [] = Reply 200 tx (Inr repos)"
    and "makedirs_fault env BASE_OUTPUT_DIR = None"
  shows "\<forall>r \<in> set repos. Out_Processing (name r) \<in> set (console w_end)"
proof (cases "repos = []")
  case True
  then show ?thesis by simp
next
  case False
  let ?w0 = "print Out_BaseDir (print Out_Starting ((init_world disk)\<lparr>clock_reads := Suc 0\<rparr>))"
  from main_export[OF assms(1)] obtain w1 d where
    e: "export_all env ?w0 = Some (Inr (), w1)"
    and c: "console w_end = console (overall_summary d w1)" by blast
  have r0: "requests ?w0 = []" by (simp add: print_def init_world_def)
  have g: "get_repositories env ?w0 = (Inr repos, session_get GetRepositories ?w0)"
    using assms(2) by (simp add: get_repositories_cases r0)
  from e assms(3) g False have "process_all env repos (session_get GetRepositories ?w0) = Some w1"
    by (auto simp add: export_all_def split: option.splits)
  from processed_process_all[OF this] have "\<forall>r \<in> set repos. Out_Processing (name r) \<in> set (console w1)"
    by simp
  then show ?thesis using c by (simp add: overall_summary_proj)
qed

text \<open>With distinct keys, the length of \<open>stats\<close> is the number of its keys.\<close>

lemma length_stats_card:
  assumes "distinct (map fst s)"
  shows "length s = card {n. map_of s n \<noteq> None}"
proof -
  have "{n. map_of s n \<noteq> None} = set (map fst s)"
    by (auto simp add: map_of_eq_None_iff)
  with distinct_card[OF assms] show ?thesis by simp
qed

section \<open>The claims\<close>

subsection \<open>Claim C1\<close>

text \<open>
  Claim C1 does not hold of the code. \<open>asyncio.gather\<close> starts every coroutine of the
  page, and nothing in \<open>download_asset\<close> waits for a free slot: on a server that
  answers and an empty disk, once the tasks of a page have been started every one of
  them is in flight, however many there are. A page of eleven assets has eleven
  transfers in flight, above \<open>MAX_CONCURRENT_DOWNLOADS\<close>. The constant is only passed
  to the thread pool of line 29, which no method uses.
\<close>

theorem C1_no_concurrency_ceiling:
  "in_flight (fst (start_all (scenario rr cr ar) rn (download_tasks result) (init_world Map.empty)))
     = length (concat (map assets (items result)))
   \<and> length (concat (map assets (items eleven_page))) = 11
   \<and> MAX_CONCURRENT_DOWNLOADS
       < in_flight (fst (start_all (scenario rr cr ar) rn (download_tasks eleven_page)
                           (init_world Map.empty)))"
proof -
  have g: "in_flight (fst (start_all (scenario rr cr ar) rn (download_tasks p) (init_world Map.empty)))
     = length (concat (map assets (items p)))" for p
    using start_all_in_flight[of "init_world Map.empty" "scenario rr cr ar" rn
            "concat (map assets (items p))"]
    by (simp add: download_tasks_assets scenario_proj init_world_def)
  have e: "length (concat (map assets (items eleven_page))) = 11"
    by (simp add: eleven_page_def)
  show ?thesis using g[of result] g[of eleven_page] e
    by (simp add: MAX_CONCURRENT_DOWNLOADS_def)
qed

subsection \<open>Claim C2\<close>

text \<open>
  Claim C2. \<open>download_asset\<close> skips exactly when a file exists at the destination,
  the asset declares a \<open>fileSize\<close> and the local size equals it: the skip line is
  printed if and only if that holds, and (where the destination directory can be
  created, so that the program gets as far as the request) no GET is issued if and only
  if that holds. A skip issues no GET, writes no file, logs nothing and leaves both
  counters as they were. Otherwise the asset is requested again, and on a complete
  status-200 response the file holds exactly the new body (it is overwritten), one
  asset and the body's length are counted. The instances of the claim (size 999 against
  1000, size 1000 against 1000, no \<open>fileSize\<close>) are the instance proved after the theorem.
\<close>

theorem C2_skip_policy:
  "up_to_date w rn a
     = (\<exists>b. files w (full_path_of rn a) = Some b \<and> fileSize a = Some (int (length b)))
   \<and> (console (download_asset env a rn w) = console w @ [Out_Skipping rn (path a)])
       = up_to_date w rn a
   \<and> (makedirs_fault env (os_path_dirname (full_path_of rn a)) = None \<longrightarrow>
        (requests (download_asset env a rn w) = requests w) = up_to_date w rn a)
   \<and> (up_to_date w rn a \<longrightarrow>
        requests (download_asset env a rn w) = requests w
        \<and> files (download_asset env a rn w) = files w
        \<and> logs (download_asset env a rn w) = logs w
        \<and> downloadedAssets (download_asset env a rn w) rn = downloadedAssets w rn
        \<and> downloadedBytes (download_asset env a rn w) rn = downloadedBytes w rn)
   \<and> (\<not> up_to_date w rn a
        \<and> makedirs_fault env (os_path_dirname (full_path_of rn a)) = None
        \<and> open_fault env (full_path_of rn a) = None
        \<and> asset_reply env (requests w) (downloadUrl a) = DlReply 200 body None \<longrightarrow>
        requests (download_asset env a rn w) = requests w @ [GetAsset (downloadUrl a)]
        \<and> files (download_asset env a rn w) (full_path_of rn a) = Some body
        \<and> downloadedAssets (download_asset env a rn w) rn = downloadedAssets w rn + 1
        \<and> downloadedBytes (download_asset env a rn w) rn
            = downloadedBytes w rn + int (length body))"
proof -
  let ?w' = "download_asset env a rn w"
  note i = init_stats_counters[of env rn w]
  have A: "up_to_date w rn a \<longrightarrow>
             requests ?w' = requests w \<and> files ?w' = files w \<and> logs ?w' = logs w
             \<and> downloadedAssets ?w' rn = downloadedAssets w rn
             \<and> downloadedBytes ?w' rn = downloadedBytes w rn"
    using i by (simp add: download_asset_unfold print_proj)
  have C: "makedirs_fault env (os_path_dirname (full_path_of rn a)) = None \<longrightarrow>
        (requests ?w' = requests w) = up_to_date w rn a"
  proof (cases "up_to_date w rn a")
    case True
    with A show ?thesis by simp
  next
    case False
    show ?thesis
    proof
      assume m: "makedirs_fault env (os_path_dirname (full_path_of rn a)) = None"
      from download_asset_requests[OF False m] False
      show "(requests ?w' = requests w) = up_to_date w rn a" by simp
    qed
  qed
  have D: "\<not> up_to_date w rn a
        \<and> makedirs_fault env (os_path_dirname (full_path_of rn a)) = None
        \<and> open_fault env (full_path_of rn a) = None
        \<and> asset_reply env (requests w) (downloadUrl a) = DlReply 200 body None \<longrightarrow>
        requests ?w' = requests w @ [GetAsset (downloadUrl a)]
        \<and> files ?w' (full_path_of rn a) = Some body
        \<and> downloadedAssets ?w' rn = downloadedAssets w rn + 1
        \<and> downloadedBytes ?w' rn = downloadedBytes w rn + int (length body)"
  proof
    assume h: "\<not> up_to_date w rn a
        \<and> makedirs_fault env (os_path_dirname (full_path_of rn a)) = None
        \<and> open_fault env (full_path_of rn a) = None
        \<and> asset_reply env (requests w) (downloadUrl a) = DlReply 200 body None"
    then have h1: "\<not> up_to_date w rn a"
      and h2: "makedirs_fault env (os_path_dirname (full_path_of rn a)) = None"
      and h3: "open_fault env (full_path_of rn a) = None"
      and h4: "asset_reply env (requests w) (downloadUrl a) = DlReply 200 body None"
      by simp_all
    from download_asset_streams[OF h1 h2 h3 h4] obtain s where
        s: "downloaded_assets s = downloadedAssets w rn" "downloaded_size s = downloadedBytes w rn"
        "?w' = streamed rn a
                 (iter_chunked 8192 (buffered env (requests w @ [GetAsset (downloadUrl a)]) (downloadUrl a)) body)
                 None s []
                 ((session_get (GetAsset (downloadUrl a)) (init_stats env rn w))
                    \<lparr>files := (files w)(full_path_of rn a \<mapsto> [])\<rparr>)" by blast
    show "requests ?w' = requests w @ [GetAsset (downloadUrl a)]
        \<and> files ?w' (full_path_of rn a) = Some body
        \<and> downloadedAssets ?w' rn = downloadedAssets w rn + 1
        \<and> downloadedBytes ?w' rn = downloadedBytes w rn + int (length body)"
      using s download_asset_requests[OF h1 h2]
      by (simp add: streamed_proj concat_iter_chunked)
  qed
  show ?thesis using A C D up_to_date_iff[of w rn a] download_asset_console[of env a rn w]
    by blast
qed

theorem C2_skip_policy_witness:
  "files (download_asset (scenario no_listing (serve_in_order []) (serve_body (replicate 1000 CHR ''n'')))
            (x_jar (Some 1000)) ''releases''
            (init_world [''nexus_artifacts/releases/com/x/1.0/x.jar'' \<mapsto> replicate 999 CHR ''o'']))
      ''nexus_artifacts/releases/com/x/1.0/x.jar'' = Some (replicate 1000 CHR ''n'')
   \<and> requests (download_asset (scenario no_listing (serve_in_order []) (serve_body (replicate 1000 CHR ''n'')))
            (x_jar (Some 1000)) ''releases''
            (init_world [''nexus_artifacts/releases/com/x/1.0/x.jar'' \<mapsto> replicate 999 CHR ''o'']))
      = [GetAsset ''http://localhost:8081/repository/releases/com/x/1.0/x.jar'']
   \<and> requests (download_asset (scenario no_listing (serve_in_order []) (serve_body (replicate 1000 CHR ''n'')))
            (x_jar (Some 1000)) ''releases''
            (init_world [''nexus_artifacts/releases/com/x/1.0/x.jar'' \<mapsto> replicate 1000 CHR ''o'']))
      = []
   \<and> files (download_asset (scenario no_listing (serve_in_order []) (serve_body (replicate 1000 CHR ''n'')))
            (x_jar (Some 1000)) ''releases''
            (init_world [''nexus_artifacts/releases/com/x/1.0/x.jar'' \<mapsto> replicate 1000 CHR ''o'']))
      ''nexus_artifacts/releases/com/x/1.0/x.jar'' = Some (replicate 1000 CHR ''o'')
   \<and> downloadedAssets (download_asset (scenario no_listing (serve_in_order []) (serve_body (replicate 1000 CHR ''n'')))
            (x_jar (Some 1000)) ''releases''
            (init_world [''nexus_artifacts/releases/com/x/1.0/x.jar'' \<mapsto> replicate 1000 CHR ''o'']))
         ''releases'' = 0
   \<and> requests (download_asset (scenario no_listing (serve_in_order []) (serve_body (replicate 1000 CHR ''n'')))
            (x_jar None) ''releases''
            (init_world [''nexus_artifacts/releases/com/x/1.0/x.jar'' \<mapsto> replicate 1000 CHR ''o'']))
      = [GetAsset ''http://localhost:8081/repository/releases/com/x/1.0/x.jar'']
   \<and> downloadedAssets (download_asset (scenario no_listing (serve_in_order []) (serve_body (replicate 1000 CHR ''n'')))
            (x_jar None) ''releases''
            (init_world [''nexus_artifacts/releases/com/x/1.0/x.jar'' \<mapsto> replicate 1000 CHR ''o'']))
         ''releases'' = 1"
  using C2_skip_policy[of
          "init_world [''nexus_artifacts/releases/com/x/1.0/x.jar'' \<mapsto> replicate 999 CHR ''o'']"
          "''releases''" "x_jar (Some 1000)"
          "scenario no_listing (serve_in_order []) (serve_body (replicate 1000 CHR ''n''))"
          "replicate 1000 CHR ''n''"]
        C2_skip_policy[of
          "init_world [''nexus_artifacts/releases/com/x/1.0/x.jar'' \<mapsto> replicate 1000 CHR ''o'']"
          "''releases''" "x_jar (Some 1000)"
          "scenario no_listing (serve_in_order []) (serve_body (replicate 1000 CHR ''n''))"
          "replicate 1000 CHR ''n''"]
        C2_skip_policy[of
          "init_world [''nexus_artifacts/releases/com/x/1.0/x.jar'' \<mapsto> replicate 1000 CHR ''o'']"
          "''releases''" "x_jar None"
          "scenario no_listing (serve_in_order []) (serve_body (replicate 1000 CHR ''n''))"
          "replicate 1000 CHR ''n''"]
  by (simp add: full_path_x_jar dirname_x_jar up_to_date_def scenario_proj serve_body_def
        init_world_def x_jar_proj downloadedAssets_def downloadedBytes_def)

subsection \<open>Claim C3\<close>




subsection \<open>Claim C4\<close>




subsection \<open>Claim C5\<close>

text \<open>
  Claim C5. \<open>get_components\<close> (fetchPage) never raises: whenever the components request
  does not produce a status-200 response with a decodable body (a status other than 200,
  a failed request, an undecodable body), it returns the empty page
  \<open>{items: [], continuationToken: None}\<close> and writes exactly one error to the log; the
  pagination loop of that repository then ends at this page with a result, so the run
  goes on. The handler of lines 70-72 turns every exception of the \<open>try\<close> body
  (\<open>get_components_try\<close>) into that page, which is why the result type of
  \<open>get_components\<close> has no exception.
\<close>

theorem C5_fetch_page_degrades:
  assumes "\<not> (\<exists>tx p. components_reply env (requests w) (comp_params repository_name token)
                        = Reply 200 tx (Inr p))"
  shows "fst (get_components env repository_name token w) = \<lparr>items = [], continuationToken = None\<rparr>
       \<and> (\<exists>e. is_error e \<and>
              logs (snd (get_components env repository_name token w)) = logs w @ [e])
       \<and> pages_loop env repository_name token w
           = Some (snd (get_components env repository_name token w))"
proof -
  let ?g = "get_components env repository_name token w"
  have a: "fst ?g = empty_page"
    using assms by (auto simp: get_components_cases split: http_reply.splits sum.splits)
  have b: "\<exists>e. is_error e \<and> logs (snd ?g) = logs w @ [e]"
    using assms by (auto simp: get_components_cases prim_defs split: http_reply.splits sum.splits)
  have "pages_loop env repository_name token w = Some (snd ?g)"
    by (subst pages_loop_unfold)
       (simp add: a empty_page_def truthy_def download_page_def download_tasks_def)
  with a b show ?thesis by (simp add: empty_page_def)
qed

theorem C5_fetch_page_degrades_witness:
  "fst (get_components (scenario no_listing (\<lambda>h q. Reply 503 ''Service Unavailable'' (Inl ''not JSON'')) no_assets)
          ''releases'' (Some ''t1'') (init_world Map.empty))
     = \<lparr>items = [], continuationToken = None\<rparr>
   \<and> logs (snd (get_components (scenario no_listing (\<lambda>h q. Reply 503 ''Service Unavailable'' (Inl ''not JSON'')) no_assets)
          ''releases'' (Some ''t1'') (init_world Map.empty)))
     = [Err_FailedGetComponents 503 ''Service Unavailable'']
   \<and> pages_loop (scenario no_listing (\<lambda>h q. Reply 503 ''Service Unavailable'' (Inl ''not JSON'')) no_assets)
          ''releases'' (Some ''t1'') (init_world Map.empty)
     = Some (snd (get_components (scenario no_listing (\<lambda>h q. Reply 503 ''Service Unavailable'' (Inl ''not JSON'')) no_assets)
          ''releases'' (Some ''t1'') (init_world Map.empty)))"
  using C5_fetch_page_degrades[of "scenario no_listing (\<lambda>h q. Reply 503 ''Service Unavailable'' (Inl ''not JSON'')) no_assets"
          "init_world Map.empty" "''releases''" "Some ''t1''"]
  by (simp add: scenario_def init_world_def get_components_cases prim_defs)

subsection \<open>Claim C6\<close>

text \<open>
  Claim C6 as stated fails: a non-null token need not be non-empty. A server whose
  first page carries the token \<open>""\<close> and whose second page carries no token serves a
  sequence with \<open>N = 1\<close>, yet the loop requests one page, not two: the test of line 136
  is truthiness.
\<close>

theorem C6_counterexample:
  "serves_pages (scenario no_listing (serve_in_order [token_page (Some ''''), token_page None]) no_assets)
      0 [token_page (Some ''''), token_page None]
   \<and> continuationToken (token_page (Some '''')) \<noteq> None
   \<and> continuationToken (token_page None) = None
   \<and> pages_loop (scenario no_listing (serve_in_order [token_page (Some ''''), token_page None]) no_assets)
        ''releases'' None (init_world Map.empty)
       = Some ((init_world Map.empty)\<lparr>requests := [GetComponents [(''repository'', ''releases'')]]\<rparr>)"
proof -
  let ?env = "scenario no_listing (serve_in_order [token_page (Some ''''), token_page None]) no_assets"
  have "pages_loop ?env ''releases'' None (init_world Map.empty)
       = Some ((init_world Map.empty)\<lparr>requests := [GetComponents [(''repository'', ''releases'')]]\<rparr>)"
    by (subst pages_loop_unfold)
       (simp add: scenario_def serve_in_order_def token_page_def init_world_def get_components_cases
          prim_defs comp_params_def page_requests_def truthy_def download_page_def download_tasks_def)
  then show ?thesis by (simp add: serves_in_order token_page_def)
qed

text \<open>
  Claim C6, amended. Let the server answer the page requests of the loop, in order, with
  the pages \<open>ps\<close> (\<open>N + 1\<close> of them), where every page but the last carries a token
  that is neither null nor the empty string and the last page carries a null token.
  Then the loop returns, having requested exactly \<open>N + 1\<close> pages: the first with no
  token, each further one with the token of the page before.
\<close>

theorem C6_pagination_visits_every_page:
  assumes "serves_pages env (length (page_requests (requests w))) ps"
    and "ps \<noteq> []"
    and "\<forall>p \<in> set (butlast ps). continuationToken p \<noteq> None \<and> continuationToken p \<noteq> Some ''''"
    and "continuationToken (last ps) = None"
  shows "\<exists>w'. pages_loop env repository_name None w = Some w'
           \<and> page_requests (requests w') =
               page_requests (requests w) @
                 map (\<lambda>t. GetComponents (comp_params repository_name t))
                   (None # map continuationToken (butlast ps))
           \<and> length (page_requests (requests w')) = length (page_requests (requests w)) + length ps"
proof -
  have t: "\<forall>p \<in> set (butlast ps). truthy (continuationToken p)"
    using assms(3) by (auto simp: truthy_def split: option.splits)
  have l: "\<not> truthy (continuationToken (last ps))" using assms(4) by (simp add: truthy_def)
  from pages_loop_serves[OF assms(1,2) t l, of repository_name None] obtain w' where
    w': "pages_loop env repository_name None w = Some w'"
        "page_requests (requests w') =
               page_requests (requests w) @
                 map (\<lambda>t. GetComponents (comp_params repository_name t))
                   (None # map continuationToken (butlast ps))"
    by blast
  from w'(2) assms(2) have "length (page_requests (requests w')) = length (page_requests (requests w)) + length ps"
    by simp
  with w' show ?thesis by blast
qed

theorem C6_pagination_visits_every_page_witness:
  "serves_pages (scenario no_listing
        (serve_in_order [token_page (Some ''a''), token_page (Some ''b''), token_page None]) no_assets)
      0 [token_page (Some ''a''), token_page (Some ''b''), token_page None]
   \<and> (\<exists>w'. pages_loop (scenario no_listing
        (serve_in_order [token_page (Some ''a''), token_page (Some ''b''), token_page None]) no_assets)
          ''releases'' None (init_world Map.empty) = Some w'
        \<and> page_requests (requests w') =
            [GetComponents [(''repository'', ''releases'')],
             GetComponents [(''repository'', ''releases''), (''continuationToken'', ''a'')],
             GetComponents [(''repository'', ''releases''), (''continuationToken'', ''b'')]])"
  using C6_pagination_visits_every_page[of
          "scenario no_listing
             (serve_in_order [token_page (Some ''a''), token_page (Some ''b''), token_page None]) no_assets"
          "init_world Map.empty"
          "[token_page (Some ''a''), token_page (Some ''b''), token_page None]" "''releases''"]
        serves_in_order[of no_listing "[token_page (Some ''a''), token_page (Some ''b''), token_page None]" no_assets]
  by (auto simp add: init_world_def page_requests_def token_page_def comp_params_def)

subsection \<open>Claim C7\<close>

text \<open>
  Claim C7 as stated fails in its first part: the chunks are not of a fixed size. A body
  of 20000 bytes, of which 5000 have arrived when the task first reads, is handed over
  in chunks of 5000, 8192 and 6808 bytes; after the first write the file holds 5000
  bytes and \<open>downloaded_size\<close> is 5000, although 15000 bytes are still to come.
\<close>

theorem C7_counterexample:
  "asset_reply slow_start [] (downloadUrl (asset_named ''a.jar''))
     = DlReply 200 (replicate 20000 CHR ''x'') None
   \<and> fst (run_sched slow_start ''releases'' [0]
            (start_all slow_start ''releases'' [NotStarted (asset_named ''a.jar'')]
               (init_world Map.empty)))
       = [Streaming (asset_named ''a.jar'')
            [replicate 5000 CHR ''x'', replicate 8192 CHR ''x'', replicate 6808 CHR ''x''] None]
   \<and> fst (run_sched slow_start ''releases'' [0, 0]
            (start_all slow_start ''releases'' [NotStarted (asset_named ''a.jar'')]
               (init_world Map.empty)))
       = [Streaming (asset_named ''a.jar'')
            [replicate 8192 CHR ''x'', replicate 6808 CHR ''x''] None]
   \<and> files (snd (run_sched slow_start ''releases'' [0, 0]
            (start_all slow_start ''releases'' [NotStarted (asset_named ''a.jar'')]
               (init_world Map.empty)))) ''nexus_artifacts/releases/a.jar''
       = Some (replicate 5000 CHR ''x'')
   \<and> downloadedBytes (snd (run_sched slow_start ''releases'' [0, 0]
            (start_all slow_start ''releases'' [NotStarted (asset_named ''a.jar'')]
               (init_world Map.empty)))) ''releases'' = 5000"
proof -
  have c: "iter_chunked 8192 [5000] (replicate 20000 CHR ''x'')
       = [replicate 5000 CHR ''x'', replicate 8192 CHR ''x'', replicate 6808 CHR ''x'']"
    by (subst iter_chunked.simps, simp, subst iter_chunked.simps, simp,
        subst iter_chunked.simps, simp, subst iter_chunked.simps, simp)
  have p: "full_path_of ''releases'' (asset_named ''a.jar'') = ''nexus_artifacts/releases/a.jar''"
    by (simp add: full_path_of_def os_path_join_def join_step_def BASE_OUTPUT_DIR_def
          asset_named_proj)
  have e: "asset_reply slow_start = serve_body (replicate 20000 CHR ''x'')"
     "buffered slow_start h u = [5000]" "makedirs_fault slow_start d = None"
     "open_fault slow_start d = None" "clock slow_start n = 0" for h u d n
    by (simp_all add: slow_start_def scenario_def)
  show ?thesis
    by (simp add: e p c step_nth_def step_task_def begin_download_def on_response_def
          on_chunk_def file_write_def init_stats_def time_time_def os_path_exists_def
          init_world_def session_get_def serve_body_def asset_named_proj Let_def
          downloadedBytes_def)
qed

text \<open>
  Claim C7, amended. The body of a status-200 response is handed to the task in chunks
  of at most 8192 bytes: none is empty or longer, together they are the body, and how
  the body is cut depends on the pace at which it arrives (only a body that has arrived
  in full is cut into chunks of exactly 8192 bytes, the last one holding the rest).
  Each step that writes a chunk appends it to the file and adds its length to
  \<open>downloaded_size\<close> at once, leaving \<open>downloaded_assets\<close> as it is; the step at
  the end of the body adds one to \<open>downloaded_assets\<close> and nothing to
  \<open>downloaded_size\<close>. Hence, in whatever order the tasks of a batch are resumed and
  however their bodies are cut, a batch whose assets all receive complete status-200
  responses adds the number of assets and the total length of their bodies; for bodies
  of 100, 200 and 300 bytes that is 3 and 600 (the instance proved after the theorem).
\<close>

theorem C7_stats_accuracy:
  "concat (iter_chunked 8192 av body) = body
   \<and> (\<forall>c \<in> set (iter_chunked 8192 av body). 0 < length c \<and> length c \<le> 8192)
   \<and> (\<forall>c \<in> set (butlast (iter_chunked 8192 [] body)). length c = 8192)
   \<and> (open_fault env (full_path_of rn a) = None \<longrightarrow>
        fst (step_task env rn (AwaitingResponse a (DlReply 200 body flt)) w)
          = Streaming a (iter_chunked 8192 (buffered env (requests w) (downloadUrl a)) body) flt)
   \<and> (map_of (stats w) rn \<noteq> None \<longrightarrow>
        fst (step_task env rn (Streaming a (c # cs) flt) w) = Streaming a cs flt
        \<and> downloadedBytes (snd (step_task env rn (Streaming a (c # cs) flt) w)) rn
            = downloadedBytes w rn + int (length c)
        \<and> downloadedAssets (snd (step_task env rn (Streaming a (c # cs) flt) w)) rn
            = downloadedAssets w rn
        \<and> files (snd (step_task env rn (Streaming a (c # cs) flt) w)) (full_path_of rn a)
            = Some ((case files w (full_path_of rn a) of Some old \<Rightarrow> old | None \<Rightarrow> []) @ c)
        \<and> fst (step_task env rn (Streaming a [] None) w) = Finished
        \<and> downloadedAssets (snd (step_task env rn (Streaming a [] None) w)) rn
            = downloadedAssets w rn + 1
        \<and> downloadedBytes (snd (step_task env rn (Streaming a [] None) w)) rn
            = downloadedBytes w rn)
   \<and> (start_all env rn (map NotStarted as) w
          = (map2 (\<lambda>a b. AwaitingResponse a (DlReply 200 b None)) as bodies, w1)
        \<and> length bodies = length as
        \<and> (\<forall>a \<in> set as. open_fault env (full_path_of rn a) = None) \<longrightarrow>
        downloadedAssets (gather env rn sched (map NotStarted as) w) rn
          = downloadedAssets w rn + int (length as)
        \<and> downloadedBytes (gather env rn sched (map NotStarted as) w) rn
          = downloadedBytes w rn + int (sum_list (map length bodies)))"
proof -
  have 1: "concat (iter_chunked 8192 av body) = body" by (simp add: concat_iter_chunked)
  have 2: "\<forall>c \<in> set (iter_chunked 8192 av body). 0 < length c \<and> length c \<le> 8192"
    using iter_chunked_sizes[of 8192 _ av body] by simp
  have 3: "\<forall>c \<in> set (butlast (iter_chunked 8192 [] body)). length c = 8192"
    using iter_chunked_full[of 8192 _ body] by simp
  have 4: "open_fault env (full_path_of rn a) = None \<longrightarrow>
        fst (step_task env rn (AwaitingResponse a (DlReply 200 body flt)) w)
          = Streaming a (iter_chunked 8192 (buffered env (requests w) (downloadUrl a)) body) flt"
    by (simp add: step_task_def on_response_def)
  note 5 = step_streaming_chunk[of w rn env a c cs flt] step_streaming_eof[of w rn env a]
  have 6: "start_all env rn (map NotStarted as) w
          = (map2 (\<lambda>a b. AwaitingResponse a (DlReply 200 b None)) as bodies, w1)
        \<and> length bodies = length as
        \<and> (\<forall>a \<in> set as. open_fault env (full_path_of rn a) = None) \<longrightarrow>
        downloadedAssets (gather env rn sched (map NotStarted as) w) rn
          = downloadedAssets w rn + int (length as)
        \<and> downloadedBytes (gather env rn sched (map NotStarted as) w) rn
          = downloadedBytes w rn + int (sum_list (map length bodies))"
  proof
    assume h: "start_all env rn (map NotStarted as) w
          = (map2 (\<lambda>a b. AwaitingResponse a (DlReply 200 b None)) as bodies, w1)
        \<and> length bodies = length as
        \<and> (\<forall>a \<in> set as. open_fault env (full_path_of rn a) = None)"
    then have s: "start_all env rn (map NotStarted as) w
          = (map2 (\<lambda>a b. AwaitingResponse a (DlReply 200 b None)) as bodies, w1)"
      and l: "length bodies = length as"
      and f: "\<forall>a \<in> set as. open_fault env (full_path_of rn a) = None" by simp_all
    from gather_counters[OF s, of sched] all_succeed_totals[OF l f]
    show "downloadedAssets (gather env rn sched (map NotStarted as) w) rn
          = downloadedAssets w rn + int (length as)
        \<and> downloadedBytes (gather env rn sched (map NotStarted as) w) rn
          = downloadedBytes w rn + int (sum_list (map length bodies))"
      by simp
  qed
  show ?thesis using 1 2 3 4 5 6 by blast
qed

theorem C7_stats_accuracy_witness:
  "(\<forall>sched.
      downloadedAssets (gather (scenario no_listing (serve_in_order []) sizes_100_200_300)
         ''releases'' sched (map NotStarted three_assets) (init_world Map.empty)) ''releases'' = 3
      \<and> downloadedBytes (gather (scenario no_listing (serve_in_order []) sizes_100_200_300)
         ''releases'' sched (map NotStarted three_assets) (init_world Map.empty)) ''releases'' = 600)
   \<and> iter_chunked 8192 [] (replicate 20000 CHR ''x'')
       = [replicate 8192 CHR ''x'', replicate 8192 CHR ''x'', replicate 3616 CHR ''x'']"
proof -
  let ?env = "scenario no_listing (serve_in_order []) sizes_100_200_300"
  let ?w0 = "init_world Map.empty"
  let ?bodies = "[replicate 100 CHR ''x'', replicate 200 CHR ''x'', replicate 300 CHR ''x'']"
  have batch: "downloadedAssets (gather ?env ''releases'' sched (map NotStarted three_assets) ?w0) ''releases'' = 3
      \<and> downloadedBytes (gather ?env ''releases'' sched (map NotStarted three_assets) ?w0) ''releases'' = 600"
    for sched
  proof -
    from C7_stats_accuracy[of "[]" "[]" ?env "''releases''" "asset_named ''a.jar''" None ?w0 "[]" "[]"
           three_assets ?bodies
           "snd (start_all ?env ''releases'' (map NotStarted three_assets) ?w0)" sched]
    have "start_all ?env ''releases'' (map NotStarted three_assets) ?w0
          = (map2 (\<lambda>a b. AwaitingResponse a (DlReply 200 b None)) three_assets ?bodies,
             snd (start_all ?env ''releases'' (map NotStarted three_assets) ?w0))
        \<and> length ?bodies = length three_assets
        \<and> (\<forall>a \<in> set three_assets. open_fault ?env (full_path_of ''releases'' a) = None) \<longrightarrow>
        downloadedAssets (gather ?env ''releases'' sched (map NotStarted three_assets) ?w0) ''releases''
          = downloadedAssets ?w0 ''releases'' + int (length three_assets)
        \<and> downloadedBytes (gather ?env ''releases'' sched (map NotStarted three_assets) ?w0) ''releases''
          = downloadedBytes ?w0 ''releases'' + int (sum_list (map length ?bodies))"
      by (rule conjunct2[OF conjunct2[OF conjunct2[OF conjunct2[OF conjunct2]]]])
    moreover have "start_all ?env ''releases'' (map NotStarted three_assets) ?w0
          = (map2 (\<lambda>a b. AwaitingResponse a (DlReply 200 b None)) three_assets ?bodies,
             snd (start_all ?env ''releases'' (map NotStarted three_assets) ?w0))
        \<and> length ?bodies = length three_assets
        \<and> (\<forall>a \<in> set three_assets. open_fault ?env (full_path_of ''releases'' a) = None)"
      using three_started by (simp add: three_assets_def scenario_proj)
    ultimately have
       "downloadedAssets (gather ?env ''releases'' sched (map NotStarted three_assets) ?w0) ''releases''
          = downloadedAssets ?w0 ''releases'' + int (length three_assets)
        \<and> downloadedBytes (gather ?env ''releases'' sched (map NotStarted three_assets) ?w0) ''releases''
          = downloadedBytes ?w0 ''releases'' + int (sum_list (map length ?bodies))"
      by (rule mp)
    then show ?thesis by (simp add: counters_init_world three_assets_def)
  qed
  have ch: "iter_chunked 8192 [] (replicate 20000 CHR ''x'')
       = [replicate 8192 CHR ''x'', replicate 8192 CHR ''x'', replicate 3616 CHR ''x'']"
    by (subst iter_chunked.simps, simp, subst iter_chunked.simps, simp,
        subst iter_chunked.simps, simp, subst iter_chunked.simps, simp)
  show ?thesis using batch ch by blast
qed

subsection \<open>Claim C8\<close>

text \<open>
  Claim C8 fails for a repository without assets: the listing holds the one repository
  \<open>empty\<close>, whose only page has no items. The run processes it (its
  \<open>Processing repository\<close> line is printed), prints no summary for it, and reports
  \<open>Total repositories processed: 0\<close>.
\<close>

theorem C8_counterexample:
  "repositories_reply empty_repo [] = Reply 200 [] (Inr [\<lparr>name = ''empty''\<rparr>])
   \<and> map_option fst (main empty_repo Map.empty) = Some (Inr ())
   \<and> map_option (\<lambda>rw. console (snd rw)) (main empty_repo Map.empty)
       = Some [Out_Starting, Out_BaseDir, Out_Processing ''empty'', Out_OverallSummary,
               Out_TotalRepositories 0, Out_TotalFiles 0, Out_TotalSizeDownloaded 0,
               Out_TotalTime 0]"
  by (simp add: empty_repo_run) (simp add: empty_repo_def scenario_proj)

text \<open>
  Claim C8, as the code has it. The entry of a repository in \<open>stats\<close> is created by
  \<open>download_asset\<close> alone (lines 83-88): every call leaves one, whether the asset is
  skipped, fails or is downloaded, so a page that holds an asset leaves one, and a page
  without assets leaves the world as it is. When the server serves the pages \<open>ps\<close> of
  a repository whose directory can be created, \<open>process_repository\<close> returns; the
  repository has statistics afterwards exactly if it had before or some page holds an
  asset; if it has, the console ends with its summary (files downloaded, total MB,
  average MB/s, computed from its statistics); if no page holds an asset, nothing but
  the \<open>Processing repository\<close> line has been printed and \<open>stats\<close> is unchanged.
  Whenever \<open>process_repository\<close> returns, the summary is the one of line 140-147,
  printed if and only if the repository has statistics. When \<open>main\<close> returns, the
  last lines it printed are the overall summary, in which total files and bytes are the
  sums over the entries of \<open>stats\<close>. The number printed as
  \<open>Total repositories processed\<close> is the number of entries of \<open>stats\<close>; the keys
  are distinct and a repository has an entry exactly if its summary has been printed, so
  this is the number of repositories with a summary, not the number of repositories
  processed: every repository of the listing has been processed (its
  \<open>Processing repository\<close> line is on the console), and one without assets is not
  counted. Sizes and speeds are real numbers here; rounding and the two-digit formatting
  are not modelled.
\<close>

theorem C8_summaries:
  "map_of (stats (download_asset env a rn w)) rn \<noteq> None
   \<and> (download_tasks result \<noteq> [] \<longrightarrow>
        map_of (stats (download_page env rn result w)) rn \<noteq> None)
   \<and> (download_tasks result = [] \<longrightarrow> download_page env rn result w = w)
   \<and> (makedirs_fault env (os_path_join BASE_OUTPUT_DIR [name repo]) = None
      \<and> serves_pages env (length (page_requests (requests w))) ps \<and> ps \<noteq> []
      \<and> (\<forall>p \<in> set (butlast ps). truthy (continuationToken p))
      \<and> \<not> truthy (continuationToken (last ps)) \<longrightarrow>
      (\<exists>w_out. process_repository env repo w = Some w_out
         \<and> (map_of (stats w_out) (name repo) \<noteq> None \<longleftrightarrow>
              map_of (stats w) (name repo) \<noteq> None \<or> (\<exists>p \<in> set ps. download_tasks p \<noteq> []))
         \<and> (\<forall>st. map_of (stats w_out) (name repo) = Some st \<longrightarrow>
              (\<exists>pre v. console w_out =
                 pre @ [Out_RepoCompleted (name repo), Out_FilesDownloaded (downloaded_assets st),
                        Out_TotalSize (real_of_int (downloaded_size st) / (1024 * 1024)),
                        Out_AverageSpeed v]))
         \<and> (map_of (stats w) (name repo) = None \<and> (\<forall>p \<in> set ps. download_tasks p = []) \<longrightarrow>
              stats w_out = stats w
              \<and> console w_out = console w @ [Out_Processing (name repo)])))
   \<and> (process_repository env repo w = Some w'
      \<and> makedirs_fault env (os_path_join BASE_OUTPUT_DIR [name repo]) = None \<longrightarrow>
      (\<exists>w2. pages_loop env (name repo) None
               (logging (Info_Processing (name repo)) (print (Out_Processing (name repo)) w))
             = Some w2
         \<and> stats w' = stats w2
         \<and> console w' =
             (case map_of (stats w2) (name repo) of
                None \<Rightarrow> console w2
              | Some s \<Rightarrow>
                  console w2 @
                    [Out_RepoCompleted (name repo), Out_FilesDownloaded (downloaded_assets s),
                     Out_TotalSize (real_of_int (downloaded_size s) / (1024 * 1024)),
                     Out_AverageSpeed
                       (if clock env (clock_reads w2) - start_time s > 0
                        then (real_of_int (downloaded_size s) / (1024 * 1024))
                               / (clock env (clock_reads w2) - start_time s)
                        else 0)])))
   \<and> (main env disk = Some (Inr (), w_end) \<longrightarrow>
        (\<exists>(w1 :: world) d. console w_end =
             console w1 @
               [Out_OverallSummary, Out_TotalRepositories (length (stats w_end)),
                Out_TotalFiles (sum_list (map (\<lambda>kv. downloaded_assets (snd kv)) (stats w_end))),
                Out_TotalSizeDownloaded
                  (real_of_int (sum_list (map (\<lambda>kv. downloaded_size (snd kv)) (stats w_end)))
                     / (1024 * 1024)),
                Out_TotalTime d] @
               (if d > 0
                then [Out_OverallSpeed
                        ((real_of_int (sum_list (map (\<lambda>kv. downloaded_size (snd kv)) (stats w_end))) / d)
                           / (1024 * 1024))]
                else []))
        \<and> distinct (map fst (stats w_end))
        \<and> (\<forall>n. map_of (stats w_end) n \<noteq> None \<longleftrightarrow> Out_RepoCompleted n \<in> set (console w_end))
        \<and> length (stats w_end) = card {n. Out_RepoCompleted n \<in> set (console w_end)}
        \<and> (\<forall>tx repos. repositories_reply env [] = Reply 200 tx (Inr repos)
              \<and> makedirs_fault env BASE_OUTPUT_DIR = None \<longrightarrow>
              (\<forall>r \<in> set repos. Out_Processing (name r) \<in> set (console w_end))))"
proof -
  let ?w1 = "logging (Info_Processing (name repo)) (print (Out_Processing (name repo)) w)"
  have E1: "map_of (stats (download_asset env a rn w)) rn \<noteq> None"
    by (rule download_asset_entry)
  have E2: "download_tasks result \<noteq> [] \<longrightarrow>
        map_of (stats (download_page env rn result w)) rn \<noteq> None"
    using download_page_entry[of result w rn env] by simp
  have E3: "download_tasks result = [] \<longrightarrow> download_page env rn result w = w"
    by (simp add: download_page_no_assets)
  have S: "makedirs_fault env (os_path_join BASE_OUTPUT_DIR [name repo]) = None
      \<and> serves_pages env (length (page_requests (requests w))) ps \<and> ps \<noteq> []
      \<and> (\<forall>p \<in> set (butlast ps). truthy (continuationToken p))
      \<and> \<not> truthy (continuationToken (last ps)) \<longrightarrow>
      (\<exists>w_out. process_repository env repo w = Some w_out
         \<and> (map_of (stats w_out) (name repo) \<noteq> None \<longleftrightarrow>
              map_of (stats w) (name repo) \<noteq> None \<or> (\<exists>p \<in> set ps. download_tasks p \<noteq> []))
         \<and> (\<forall>st. map_of (stats w_out) (name repo) = Some st \<longrightarrow>
              (\<exists>pre v. console w_out =
                 pre @ [Out_RepoCompleted (name repo), Out_FilesDownloaded (downloaded_assets st),
                        Out_TotalSize (real_of_int (downloaded_size st) / (1024 * 1024)),
                        Out_AverageSpeed v]))
         \<and> (map_of (stats w) (name repo) = None \<and> (\<forall>p \<in> set ps. download_tasks p = []) \<longrightarrow>
              stats w_out = stats w
              \<and> console w_out = console w @ [Out_Processing (name repo)]))"
  proof
    assume h: "makedirs_fault env (os_path_join BASE_OUTPUT_DIR [name repo]) = None
      \<and> serves_pages env (length (page_requests (requests w))) ps \<and> ps \<noteq> []
      \<and> (\<forall>p \<in> set (butlast ps). truthy (continuationToken p))
      \<and> \<not> truthy (continuationToken (last ps))"
    then have h1: "makedirs_fault env (os_path_join BASE_OUTPUT_DIR [name repo]) = None"
      and h2: "serves_pages env (length (page_requests (requests w))) ps" and h3: "ps \<noteq> []"
      and h4: "\<forall>p \<in> set (butlast ps). truthy (continuationToken p)"
      and h5: "\<not> truthy (continuationToken (last ps))" by simp_all
    show "\<exists>w_out. process_repository env repo w = Some w_out
         \<and> (map_of (stats w_out) (name repo) \<noteq> None \<longleftrightarrow>
              map_of (stats w) (name repo) \<noteq> None \<or> (\<exists>p \<in> set ps. download_tasks p \<noteq> []))
         \<and> (\<forall>st. map_of (stats w_out) (name repo) = Some st \<longrightarrow>
              (\<exists>pre v. console w_out =
                 pre @ [Out_RepoCompleted (name repo), Out_FilesDownloaded (downloaded_assets st),
                        Out_TotalSize (real_of_int (downloaded_size st) / (1024 * 1024)),
                        Out_AverageSpeed v]))
         \<and> (map_of (stats w) (name repo) = None \<and> (\<forall>p \<in> set ps. download_tasks p = []) \<longrightarrow>
              stats w_out = stats w
              \<and> console w_out = console w @ [Out_Processing (name repo)])"
      by (rule process_repository_serves[OF h1 h2 h3 h4 h5])
  qed
  have A: "process_repository env repo w = Some w'
      \<and> makedirs_fault env (os_path_join BASE_OUTPUT_DIR [name repo]) = None \<longrightarrow>
      (\<exists>w2. pages_loop env (name repo) None ?w1 = Some w2
         \<and> stats w' = stats w2
         \<and> console w' = console (repo_summary env (name repo) w2))"
    by (auto simp add: process_repository_cases repo_summary_stats)
  have B: "main env disk = Some (Inr (), w_end) \<longrightarrow>
        (\<exists>(w1 :: world) d. console w_end = console (overall_summary d w1) \<and> stats w_end = stats w1)"
  proof
    assume "main env disk = Some (Inr (), w_end)"
    from main_returns[OF this] show
      "\<exists>w1 d. console w_end = console (overall_summary d w1) \<and> stats w_end = stats w1"
      by (auto simp add: overall_summary_proj(1))
  qed
  have C: "main env disk = Some (Inr (), w_end) \<longrightarrow>
        distinct (map fst (stats w_end))
        \<and> (\<forall>n. map_of (stats w_end) n \<noteq> None \<longleftrightarrow> Out_RepoCompleted n \<in> set (console w_end))
        \<and> length (stats w_end) = card {n. Out_RepoCompleted n \<in> set (console w_end)}
        \<and> (\<forall>tx repos. repositories_reply env [] = Reply 200 tx (Inr repos)
              \<and> makedirs_fault env BASE_OUTPUT_DIR = None \<longrightarrow>
              (\<forall>r \<in> set repos. Out_Processing (name r) \<in> set (console w_end)))"
  proof
    assume m: "main env disk = Some (Inr (), w_end)"
    from main_inv[OF m] have d: "distinct (map fst (stats w_end))"
      and sp: "\<forall>n. map_of (stats w_end) n \<noteq> None \<longrightarrow> Out_RepoCompleted n \<in> set (console w_end)"
      by (simp_all add: summaries_printed_def)
    have e: "\<forall>n. map_of (stats w_end) n \<noteq> None \<longleftrightarrow> Out_RepoCompleted n \<in> set (console w_end)"
      using sp main_summaries_have_stats[OF m] by blast
    then have "{n. map_of (stats w_end) n \<noteq> None} = {n. Out_RepoCompleted n \<in> set (console w_end)}"
      by blast
    with length_stats_card[OF d]
    have c: "length (stats w_end) = card {n. Out_RepoCompleted n \<in> set (console w_end)}" by simp
    have p: "\<forall>tx repos. repositories_reply env [] = Reply 200 tx (Inr repos)
              \<and> makedirs_fault env BASE_OUTPUT_DIR = None \<longrightarrow>
              (\<forall>r \<in> set repos. Out_Processing (name r) \<in> set (console w_end))"
      using main_processed[OF m] by blast
    from d e c p show "distinct (map fst (stats w_end))
        \<and> (\<forall>n. map_of (stats w_end) n \<noteq> None \<longleftrightarrow> Out_RepoCompleted n \<in> set (console w_end))
        \<and> length (stats w_end) = card {n. Out_RepoCompleted n \<in> set (console w_end)}
        \<and> (\<forall>tx repos. repositories_reply env [] = Reply 200 tx (Inr repos)
              \<and> makedirs_fault env BASE_OUTPUT_DIR = None \<longrightarrow>
              (\<forall>r \<in> set repos. Out_Processing (name r) \<in> set (console w_end)))"
      by (intro conjI)
  qed
  let ?L = "\<lambda>(s :: (string \<times> repo_stats) list) (d :: real).
               [Out_OverallSummary, Out_TotalRepositories (length s),
                Out_TotalFiles (sum_list (map (\<lambda>kv. downloaded_assets (snd kv)) s)),
                Out_TotalSizeDownloaded
                  (real_of_int (sum_list (map (\<lambda>kv. downloaded_size (snd kv)) s))
                     / (1024 * 1024)),
                Out_TotalTime d] @
               (if d > 0
                then [Out_OverallSpeed
                        ((real_of_int (sum_list (map (\<lambda>kv. downloaded_size (snd kv)) s)) / d)
                           / (1024 * 1024))]
                else [])"
  have B': "main env disk = Some (Inr (), w_end) \<longrightarrow>
        (\<exists>(w1 :: world) d. console w_end = console w1 @ ?L (stats w_end) d)"
  proof
    assume "main env disk = Some (Inr (), w_end)"
    with B obtain w1 d where
      "console w_end = console (overall_summary d w1)" "stats w_end = stats w1" by blast
    then have "console w_end = console w1 @ ?L (stats w_end) d"
      by (simp only: overall_summary_proj(2))
    then have "\<exists>d. console w_end = console w1 @ ?L (stats w_end) d" by (rule exI)
    then show "\<exists>(w1 :: world) d. console w_end = console w1 @ ?L (stats w_end) d" by (rule exI)
  qed
  have M: "main env disk = Some (Inr (), w_end) \<longrightarrow>
        (\<exists>(w1 :: world) d. console w_end = console w1 @ ?L (stats w_end) d)
        \<and> distinct (map fst (stats w_end))
        \<and> (\<forall>n. map_of (stats w_end) n \<noteq> None \<longleftrightarrow> Out_RepoCompleted n \<in> set (console w_end))
        \<and> length (stats w_end) = card {n. Out_RepoCompleted n \<in> set (console w_end)}
        \<and> (\<forall>tx repos. repositories_reply env [] = Reply 200 tx (Inr repos)
              \<and> makedirs_fault env BASE_OUTPUT_DIR = None \<longrightarrow>
              (\<forall>r \<in> set repos. Out_Processing (name r) \<in> set (console w_end)))"
  proof (rule impI)
    assume m: "main env disk = Some (Inr (), w_end)"
    from mp[OF B' m] mp[OF C m]
    show "(\<exists>(w1 :: world) d. console w_end = console w1 @ ?L (stats w_end) d)
        \<and> distinct (map fst (stats w_end))
        \<and> (\<forall>n. map_of (stats w_end) n \<noteq> None \<longleftrightarrow> Out_RepoCompleted n \<in> set (console w_end))
        \<and> length (stats w_end) = card {n. Out_RepoCompleted n \<in> set (console w_end)}
        \<and> (\<forall>tx repos. repositories_reply env [] = Reply 200 tx (Inr repos)
              \<and> makedirs_fault env BASE_OUTPUT_DIR = None \<longrightarrow>
              (\<forall>r \<in> set repos. Out_Processing (name r) \<in> set (console w_end)))"
      by (rule conjI)
  qed
  have A': "process_repository env repo w = Some w'
      \<and> makedirs_fault env (os_path_join BASE_OUTPUT_DIR [name repo]) = None \<longrightarrow>
      (\<exists>w2. pages_loop env (name repo) None ?w1 = Some w2
         \<and> stats w' = stats w2
         \<and> console w' =
             (case map_of (stats w2) (name repo) of
                None \<Rightarrow> console w2
              | Some s \<Rightarrow>
                  console w2 @
                    [Out_RepoCompleted (name repo), Out_FilesDownloaded (downloaded_assets s),
                     Out_TotalSize (real_of_int (downloaded_size s) / (1024 * 1024)),
                     Out_AverageSpeed
                       (if clock env (clock_reads w2) - start_time s > 0
                        then (real_of_int (downloaded_size s) / (1024 * 1024))
                               / (clock env (clock_reads w2) - start_time s)
                        else 0)]))"
    using A unfolding repo_summary_console .
  from E1 E2 E3 S A' M show ?thesis by (intro conjI)
qed

text \<open>
  The two runs of the scenarios: the repository \<open>empty\<close> is processed, has no
  statistics and no summary, and is not counted; the repository \<open>releases\<close> of the
  end-to-end scenario has one asset, its summary, and is counted.
\<close>

theorem C8_summaries_witness:
  "(\<exists>w_out. process_repository empty_repo \<lparr>name = ''empty''\<rparr> (init_world Map.empty) = Some w_out
        \<and> stats w_out = [] \<and> console w_out = [Out_Processing ''empty''])
   \<and> (\<exists>w_end. main empty_repo Map.empty = Some (Inr (), w_end)
        \<and> Out_Processing ''empty'' \<in> set (console w_end)
        \<and> Out_TotalRepositories 0 \<in> set (console w_end)
        \<and> card {n. Out_RepoCompleted n \<in> set (console w_end)} = 0)
   \<and> main e2e Map.empty = Some (Inr (), e2e_world)
   \<and> Out_Processing ''releases'' \<in> set (console e2e_world)
   \<and> Out_RepoCompleted ''releases'' \<in> set (console e2e_world)
   \<and> Out_TotalRepositories 1 \<in> set (console e2e_world)
   \<and> card {n. Out_RepoCompleted n \<in> set (console e2e_world)} = 1
   \<and> map_option console (process_repository e2e \<lparr>name = ''releases''\<rparr> (init_world Map.empty))
       = Some [Out_Processing ''releases'', Out_Downloaded ''releases'' 1 ''com/x/1.0/x.jar'',
               Out_RepoCompleted ''releases'', Out_FilesDownloaded 1,
               Out_TotalSize (12 / (1024 * 1024)), Out_AverageSpeed 0]"
proof -
  let ?W = "\<lparr>stats = [], files = Map.empty,
        requests = [GetRepositories, GetComponents [(''repository'', ''empty'')]],
        logs = [Info_Processing ''empty'', Info_ExportCompleted 0],
        console = [Out_Starting, Out_BaseDir, Out_Processing ''empty'', Out_OverallSummary,
                   Out_TotalRepositories 0, Out_TotalFiles 0, Out_TotalSizeDownloaded 0,
                   Out_TotalTime 0],
        clock_reads = 2, gathers = 0\<rparr> :: world"
  note T = C8_summaries[where env = empty_repo and repo = "\<lparr>name = ''empty''\<rparr>"
             and w = "init_world Map.empty" and ps = "[token_page None]"
             and disk = Map.empty and w_end = ?W]
  note U = C8_summaries[where env = e2e and disk = Map.empty and w_end = e2e_world]
  have hyp: "makedirs_fault empty_repo (os_path_join BASE_OUTPUT_DIR [name \<lparr>name = ''empty''\<rparr>]) = None
      \<and> serves_pages empty_repo (length (page_requests (requests (init_world Map.empty))))
          [token_page None]
      \<and> [token_page None] \<noteq> []
      \<and> (\<forall>p \<in> set (butlast [token_page None]). truthy (continuationToken p))
      \<and> \<not> truthy (continuationToken (last [token_page None]))"
    by (simp add: empty_repo_def scenario_proj serves_in_order init_world_def page_requests_def
          token_page_def truthy_def)
  from mp[OF T[THEN conjunct2, THEN conjunct2, THEN conjunct2, THEN conjunct1] hyp]
  have 1: "\<exists>w_out. process_repository empty_repo \<lparr>name = ''empty''\<rparr> (init_world Map.empty) = Some w_out
        \<and> stats w_out = [] \<and> console w_out = [Out_Processing ''empty'']"
    by (simp add: init_world_def token_page_def download_tasks_def) blast
  have me: "main empty_repo Map.empty = Some (Inr (), ?W)" by (rule empty_repo_run)
  from mp[OF T[THEN conjunct2, THEN conjunct2, THEN conjunct2, THEN conjunct2, THEN conjunct2] me]
  have "length (stats ?W) = card {n. Out_RepoCompleted n \<in> set (console ?W)}" by blast
  then have "card {n. Out_RepoCompleted n \<in> set (console ?W)} = 0" by simp
  with me have 2: "\<exists>w_end. main empty_repo Map.empty = Some (Inr (), w_end)
        \<and> Out_Processing ''empty'' \<in> set (console w_end)
        \<and> Out_TotalRepositories 0 \<in> set (console w_end)
        \<and> card {n. Out_RepoCompleted n \<in> set (console w_end)} = 0"
    by (intro exI[of _ ?W]) simp
  have m2: "main e2e Map.empty = Some (Inr (), e2e_world)"
    using e2e_run by (simp add: e2e_world_def)
  from mp[OF U[THEN conjunct2, THEN conjunct2, THEN conjunct2, THEN conjunct2, THEN conjunct2] m2]
  have "length (stats e2e_world) = card {n. Out_RepoCompleted n \<in> set (console e2e_world)}"
    by blast
  then have 3: "card {n. Out_RepoCompleted n \<in> set (console e2e_world)} = 1"
    by (simp add: e2e_world_def)
  have 4: "Out_Processing ''releases'' \<in> set (console e2e_world)"
     "Out_RepoCompleted ''releases'' \<in> set (console e2e_world)"
     "Out_TotalRepositories 1 \<in> set (console e2e_world)"
    by (simp_all add: e2e_world_def)
  have 5: "map_option console (process_repository e2e \<lparr>name = ''releases''\<rparr> (init_world Map.empty))
       = Some [Out_Processing ''releases'', Out_Downloaded ''releases'' 1 ''com/x/1.0/x.jar'',
               Out_RepoCompleted ''releases'', Out_FilesDownloaded 1,
               Out_TotalSize (12 / (1024 * 1024)), Out_AverageSpeed 0]"
    by (simp add: e2e_repo)
  from 1 2 m2 4 3 5 show ?thesis by (intro conjI)
qed

subsection \<open>Claim C9\<close>



subsection \<open>Claim C10\<close>

text \<open>
  Claim C10. A falsy continuation token counts as no token. Sending: for the token
  \<open>None\<close> and for the empty string the components request carries the \<open>repository\<close>
  parameter only, and a non-empty token is sent as \<open>continuationToken\<close>. Receiving: a
  page whose \<open>continuationToken\<close> is \<open>None\<close> or the empty string ends the pagination
  loop: the loop returns after downloading that page, having made exactly one page
  request.
\<close>

theorem C10_falsy_token_ends_pagination:
  "comp_params repository_name None = [(''repository'', repository_name)]
   \<and> comp_params repository_name (Some '''') = [(''repository'', repository_name)]
   \<and> (t \<noteq> '''' \<longrightarrow>
        comp_params repository_name (Some t)
          = [(''repository'', repository_name), (''continuationToken'', t)])
   \<and> (token = None \<or> token = Some '''' \<longrightarrow>
        requests (snd (get_components env repository_name token w))
          = requests w @ [GetComponents [(''repository'', repository_name)]])
   \<and> (continuationToken (fst (get_components env repository_name token w)) = None
        \<or> continuationToken (fst (get_components env repository_name token w)) = Some '''' \<longrightarrow>
        pages_loop env repository_name token w
          = Some (download_page env repository_name
                    (fst (get_components env repository_name token w))
                    (snd (get_components env repository_name token w)))
        \<and> page_requests (requests (download_page env repository_name
                    (fst (get_components env repository_name token w))
                    (snd (get_components env repository_name token w))))
          = page_requests (requests w) @ [GetComponents (comp_params repository_name token)])"
proof -
  let ?g = "get_components env repository_name token w"
  have 1: "token = None \<or> token = Some '''' \<longrightarrow>
        requests (snd ?g) = requests w @ [GetComponents [(''repository'', repository_name)]]"
    using get_components_frame[of env repository_name token w] by (auto simp: comp_params_def)
  have 2: "continuationToken (fst ?g) = None \<or> continuationToken (fst ?g) = Some '''' \<longrightarrow>
        pages_loop env repository_name token w = Some (download_page env repository_name (fst ?g) (snd ?g))"
    by (subst pages_loop_unfold) (auto simp: truthy_def)
  have 3: "page_requests (requests (download_page env repository_name (fst ?g) (snd ?g)))
          = page_requests (requests w) @ [GetComponents (comp_params repository_name token)]"
    using get_components_frame[of env repository_name token w]
    by (simp only: download_page_page_requests) (simp add: page_requests_def)
  show ?thesis using 1 2 3 by (simp add: comp_params_def)
qed

theorem C10_falsy_token_ends_pagination_witness:
  "comp_params ''releases'' (Some ''abc'') = [(''repository'', ''releases''), (''continuationToken'', ''abc'')]
   \<and> requests (snd (get_components (scenario no_listing (\<lambda>h q. Reply 200 [] (Inr (token_page (Some '''')))) no_assets)
        ''releases'' (Some '''') (init_world Map.empty)))
       = [GetComponents [(''repository'', ''releases'')]]
   \<and> pages_loop (scenario no_listing (\<lambda>h q. Reply 200 [] (Inr (token_page (Some '''')))) no_assets)
        ''releases'' None (init_world Map.empty)
       = Some ((init_world Map.empty)\<lparr>requests := [GetComponents [(''repository'', ''releases'')]]\<rparr>)"
  using C10_falsy_token_ends_pagination[of "''releases''" "''abc''" "Some ''''"
          "scenario no_listing (\<lambda>h q. Reply 200 [] (Inr (token_page (Some '''')))) no_assets"
          "init_world Map.empty"]
        C10_falsy_token_ends_pagination[of "''releases''" "''abc''" None
          "scenario no_listing (\<lambda>h q. Reply 200 [] (Inr (token_page (Some '''')))) no_assets"
          "init_world Map.empty"]
  by (simp add: scenario_def init_world_def get_components_cases prim_defs token_page_def
        download_page_def download_tasks_def)

end
